theory Spec2Isabelle
  imports Main "HOL-Library.AList" "HOL-Library.Sublist"
begin

text \<open>
  The class \<^verbatim>\<open>EventHandler\<close> of \<^verbatim>\<open>src/eventhandler/__init__.py\<close>: a registry of
  named events with their callbacks, synchronous firing, and a queue of deferred fire
  requests. Every method is a function on the state of the handler; a method that can
  raise returns a sum, with the exception on the left.
\<close>

section \<open>Python values seen by the event handler\<close>

text \<open>
  A string is the sequence of the code points of a Python \<^verbatim>\<open>str\<close>, all below 256.

  The exceptions that can travel through the handler. \<open>KeyError\<close> carries the missing
  key, the others what \<^verbatim>\<open>str(e)\<close> gives. \<open>SystemExiting\<close> stands for the
  exceptions that derive from \<^verbatim>\<open>BaseException\<close> only (\<^verbatim>\<open>KeyboardInterrupt\<close>,
  \<^verbatim>\<open>SystemExit\<close>, \<^verbatim>\<open>GeneratorExit\<close>); every other constructor is an instance
  of \<^verbatim>\<open>Exception\<close>.
\<close>

datatype pyexc =
    KeyError string
  | EventNotAllowedError string
  | AttributeError string
  | OtherException string string
  | SystemExiting string string

fun is_Exception :: "pyexc \<Rightarrow> bool" where
  "is_Exception (SystemExiting _ _) = False"
| "is_Exception _ = True"

fun is_EventNotAllowedError :: "pyexc \<Rightarrow> bool" where
  "is_EventNotAllowedError (EventNotAllowedError _) = True"
| "is_EventNotAllowedError _ = False"

abbreviation apostrophe :: char where
  "apostrophe \<equiv> CHR 0x27"

abbreviation backslash :: char where
  "backslash \<equiv> CHR 0x5C"

text \<open>
  \<^verbatim>\<open>repr\<close> of a \<^verbatim>\<open>str\<close>: between apostrophes, or between double quotes when the
  string holds an apostrophe and no double quote; the quote in use and the backslash are
  escaped, tab, newline and carriage return are written \<^verbatim>\<open>\t\<close>, \<^verbatim>\<open>\n\<close>,
  \<^verbatim>\<open>\r\<close>, and every other code point that is not printable (below 32, from 127 to
  160, and 173) is written \<^verbatim>\<open>\xhh\<close>.
\<close>

definition hex_digit :: "nat \<Rightarrow> char" where
  "hex_digit d = ''0123456789abcdef'' ! d"

definition repr_char :: "char \<Rightarrow> char \<Rightarrow> string" where
  "repr_char quote c =
     (if c = quote \<or> c = backslash then [backslash, c]
      else if c = CHR 0x09 then [backslash, CHR ''t'']
      else if c = CHR 0x0A then [backslash, CHR ''n'']
      else if c = CHR 0x0D then [backslash, CHR ''r'']
      else if (of_char c :: nat) < 32 \<or> (127 \<le> (of_char c :: nat) \<and> (of_char c :: nat) \<le> 160) \<or>
              (of_char c :: nat) = 173 then
        [backslash, CHR ''x'', hex_digit ((of_char c :: nat) div 16),
         hex_digit ((of_char c :: nat) mod 16)]
      else [c])"

definition repr_str :: "string \<Rightarrow> string" where
  "repr_str s =
     (let quote = (if apostrophe \<in> set s \<and> CHR 0x22 \<notin> set s then CHR 0x22 else apostrophe)
      in [quote] @ concat (map (repr_char quote) s) @ [quote])"

text \<open>\<^verbatim>\<open>str(e)\<close>: a \<open>KeyError\<close> prints the repr of its key.\<close>

fun str_exc :: "pyexc \<Rightarrow> string" where
  "str_exc (KeyError k) = repr_str k"
| "str_exc (EventNotAllowedError m) = m"
| "str_exc (AttributeError m) = m"
| "str_exc (OtherException c m) = m"
| "str_exc (SystemExiting c m) = m"

text \<open>
  The handler stores and compares callbacks, asks for their type (\<^verbatim>\<open>isinstance\<close>,
  \<^verbatim>\<open>type\<close>), reads their \<^verbatim>\<open>__name__\<close> and calls them. An object is therefore
  modelled by its identity (a number), its type and what reading its \<^verbatim>\<open>__name__\<close>
  gives: the name, or the exception the reading raises. A function and a builtin
  function always have a name. A bound method hands the reading on to the callable it
  wraps (\<^verbatim>\<open>__func__\<close>), which need not have one: \<^verbatim>\<open>types.MethodType\<close> over a
  \<^verbatim>\<open>functools.partial\<close> is a bound method and raises \<^verbatim>\<open>AttributeError\<close>. An
  object of any other type comes with the text that \<^verbatim>\<open>f'{type(callback)}'\<close> prints
  for it. \<^verbatim>\<open>types.BuiltinMethodType\<close> is the same type object as
  \<^verbatim>\<open>types.BuiltinFunctionType\<close>. Membership tests (\<^verbatim>\<open>callback in list\<close>) are
  equality of these values.
\<close>

datatype pyobj =
    Function nat string
  | BuiltinFunction nat string
  | Method nat "pyexc + string"
  | Object nat string "pyexc + string"

text \<open>\<^verbatim>\<open>callback.__name__\<close> and \<^verbatim>\<open>f'{type(callback)}'\<close>.\<close>

fun name_attr :: "pyobj \<Rightarrow> pyexc + string" where
  "name_attr (Function i n) = Inr n"
| "name_attr (BuiltinFunction i n) = Inr n"
| "name_attr (Method i n) = n"
| "name_attr (Object i t n) = n"

fun type_repr :: "pyobj \<Rightarrow> string" where
  "type_repr (Function i n) = ''<class '' @ [apostrophe] @ ''function'' @ [apostrophe] @ ''>''"
| "type_repr (BuiltinFunction i n) =
     ''<class '' @ [apostrophe] @ ''builtin_function_or_method'' @ [apostrophe] @ ''>''"
| "type_repr (Method i n) = ''<class '' @ [apostrophe] @ ''method'' @ [apostrophe] @ ''>''"
| "type_repr (Object i t n) = t"

text \<open>\<^verbatim>\<open>", ".join(xs)\<close>\<close>

fun join :: "string \<Rightarrow> string list \<Rightarrow> string" where
  "join sep [] = []"
| "join sep [x] = x"
| "join sep (x # y # ys) = x @ sep @ join sep (y # ys)"

section \<open>The state of an EventHandler\<close>

text \<open>
  What one \<^verbatim>\<open>print\<close> call wrote to \<^verbatim>\<open>stream_output\<close>: a line of text, or the
  line \<^verbatim>\<open>print('Arguments', args)\<close> of \<^verbatim>\<open>fire\<close>, kept with the argument tuple
  itself since the arguments are not interpreted here.
\<close>

datatype 'a printed = Line string | Arguments 'a

text \<open>
  \<^verbatim>\<open>__events\<close> is a dict from event names to list objects. The dict is an association
  list in insertion order (the order \<^verbatim>\<open>keys()\<close> gives); its values are references
  into \<open>heap\<close>, the store of the list objects, so that a list that is being iterated
  by \<^verbatim>\<open>fire\<close> and mutated by \<^verbatim>\<open>link\<close> or \<^verbatim>\<open>unlink\<close> is one shared object, as
  in Python. \<open>next_ref\<close> is the reference the next new list object gets.
  \<^verbatim>\<open>__event_queue\<close> is the deque, oldest entry first. \<open>'a\<close> and \<open>'k\<close> are the
  positional and the keyword arguments of a fire request.
\<close>

record ('a, 'k) EventHandler =
  events :: "(string \<times> nat) list"
  heap :: "nat \<Rightarrow> pyobj list"
  next_ref :: nat
  event_queue :: "(string \<times> 'a \<times> 'k) list"
  verbose :: bool
  tolerate_exceptions :: bool
  stream_output :: "'a printed list"

text \<open>\<^verbatim>\<open>print(s, file=self.stream_output)\<close> and the idiom
  \<^verbatim>\<open>print(...) if self.verbose else None\<close>.\<close>

definition print_to :: "('a, 'k) EventHandler \<Rightarrow> 'a printed \<Rightarrow> ('a, 'k) EventHandler" where
  "print_to h p = h\<lparr>stream_output := stream_output h @ [p]\<rparr>"

definition print_if_verbose :: "('a, 'k) EventHandler \<Rightarrow> string \<Rightarrow> ('a, 'k) EventHandler" where
  "print_if_verbose h s = (if verbose h then print_to h (Line s) else h)"

section \<open>Registry operations\<close>

definition clear_events :: "('a, 'k) EventHandler \<Rightarrow> bool \<times> ('a, 'k) EventHandler" where
  "clear_events h = (True, h\<lparr>events := []\<rparr>)"

definition event_list :: "('a, 'k) EventHandler \<Rightarrow> string list" where
  "event_list h = map fst (events h)"

definition count_events :: "('a, 'k) EventHandler \<Rightarrow> nat" where
  "count_events h = length (event_list h)"

definition is_event_registered :: "('a, 'k) EventHandler \<Rightarrow> string \<Rightarrow> bool" where
  "is_event_registered h event_name = (map_of (events h) event_name \<noteq> None)"

text \<open>The callback sequence of an event, as the handler's caller sees the registry.\<close>

definition callbacks_of :: "('a, 'k) EventHandler \<Rightarrow> string \<Rightarrow> pyobj list option" where
  "callbacks_of h event_name = map_option (heap h) (map_of (events h) event_name)"

definition register_event :: "('a, 'k) EventHandler \<Rightarrow> string \<Rightarrow> bool \<times> ('a, 'k) EventHandler" where
  "register_event h event_name =
     (if is_event_registered h event_name then
        (False, print_if_verbose h
           (''Omiting event '' @ event_name @ '' registration, already implemented''))
      else
        (True, h\<lparr>events := AList.update event_name (next_ref h) (events h),
                  heap := (heap h)(next_ref h := []),
                  next_ref := Suc (next_ref h)\<rparr>))"

definition unregister_event :: "('a, 'k) EventHandler \<Rightarrow> string \<Rightarrow> bool \<times> ('a, 'k) EventHandler" where
  "unregister_event h event_name =
     (if map_of (events h) event_name \<noteq> None then
        (True, h\<lparr>events := AList.delete event_name (events h)\<rparr>)
      else
        (False, print_if_verbose h
           (''Omiting unregister_event. '' @ event_name @ '' is not implemented.'')))"

fun is_callable :: "pyobj \<Rightarrow> bool" where
  "is_callable (Function i n) = True"
| "is_callable (BuiltinFunction i n) = True"
| "is_callable (Method i n) = True"
| "is_callable (Object i t n) = False"

definition is_callback_in_event :: "('a, 'k) EventHandler \<Rightarrow> string \<Rightarrow> pyobj \<Rightarrow> pyexc + bool" where
  "is_callback_in_event h event_name callback =
     (case map_of (events h) event_name of
        None \<Rightarrow> Inl (KeyError event_name)
      | Some r \<Rightarrow> Inr (callback \<in> set (heap h r)))"

definition link :: "('a, 'k) EventHandler \<Rightarrow> pyobj \<Rightarrow> string \<Rightarrow> (pyexc + bool) \<times> ('a, 'k) EventHandler" where
  "link h callback event_name =
     (if \<not> is_callable callback then
        (Inr False, print_if_verbose h
           (''Callback not registered. Type '' @ type_repr callback @
            '' is not a callable function.''))
      else if \<not> is_event_registered h event_name then
        (Inl (EventNotAllowedError
           (''Can not link event '' @ event_name @
            '', not registered. Registered events are: '' @ join '', '' (event_list h) @
            ''. Please register event '' @ event_name @ '' before link callbacks.'')), h)
      else
        (case map_of (events h) event_name of
           None \<Rightarrow> (Inl (KeyError event_name), h)
         | Some r \<Rightarrow>
             if callback \<notin> set (heap h r) then
               (Inr True, h\<lparr>heap := (heap h)(r := heap h r @ [callback])\<rparr>)
             else if verbose h then
               (case name_attr callback of
                  Inl e \<Rightarrow> (Inl e, h)
                | Inr nm \<Rightarrow>
                    (Inr False, print_to h (Line
                       (''Can not link callback '' @ nm @ '', already registered in '' @
                        event_name @ '' event.''))))
             else (Inr False, h)))"

definition unlink :: "('a, 'k) EventHandler \<Rightarrow> pyobj \<Rightarrow> string \<Rightarrow> (pyexc + bool) \<times> ('a, 'k) EventHandler" where
  "unlink h callback event_name =
     (if \<not> is_event_registered h event_name then
        (Inr False, print_to h (Line
           (''Can not unlink event '' @ event_name @
            '', not registered. Registered events are: '' @ join '', '' (event_list h) @
            ''. Please register event '' @ event_name @ '' before unlink callbacks.'')))
      else
        (case map_of (events h) event_name of
           None \<Rightarrow> (Inl (KeyError event_name), h)
         | Some r \<Rightarrow>
             if callback \<in> set (heap h r) then
               (Inr True, h\<lparr>heap := (heap h)(r := remove1 callback (heap h r))\<rparr>)
             else if verbose h then
               (case name_attr callback of
                  Inl e \<Rightarrow> (Inl e, h)
                | Inr nm \<Rightarrow>
                    (Inr False, print_to h (Line
                       (''Can not unlink callback '' @ nm @ '', is not registered in '' @
                        event_name @ '' event.''))))
             else (Inr False, h)))"

section \<open>Firing\<close>

text \<open>
  A callback is code of the handler's user: calling it may change anything it can
  reach, the handler included (the sample program's callbacks fire events of the
  handler that is calling them), and it returns or raises. The behaviour of the
  callbacks is a parameter \<open>call\<close>: for a callee and its arguments, a function from
  the state before the call to what was raised (\<open>None\<close> for a normal return, whose value
  \<^verbatim>\<open>fire\<close> only hands to \<^verbatim>\<open>callable\<close> and drops) and the state after it. The
  state is the handler together with the rest of the program's state, \<open>'w\<close>.

  The calls that \<^verbatim>\<open>fire\<close> makes are recorded, in order, in a history that the code
  never reads: callee, arguments, and what the call raised.
\<close>

type_synonym ('a, 'k, 'w) state = "('a, 'k) EventHandler \<times> 'w"

type_synonym ('a, 'k, 'w) callbacks =
  "pyobj \<Rightarrow> 'a \<Rightarrow> 'k \<Rightarrow> ('a, 'k, 'w) state \<Rightarrow> pyexc option \<times> ('a, 'k, 'w) state"

datatype ('a, 'k) invocation =
  Invocation (callee: pyobj) (pos_args: 'a) (kw_args: 'k) (raised: "pyexc option")

type_synonym ('a, 'k, 'w) outcome =
  "(pyexc + bool) \<times> ('a, 'k, 'w) state \<times> ('a, 'k) invocation list"

text \<open>
  The body of the \<^verbatim>\<open>for\<close> loop of \<^verbatim>\<open>fire\<close>: the \<^verbatim>\<open>try\<close> statement around the
  call. \<open>Inl e\<close>: the exception \<open>e\<close> leaves \<^verbatim>\<open>fire\<close>; \<open>Inr ok\<close>: the loop goes on
  with \<open>all_ok = ok\<close>. \<^verbatim>\<open>except Exception\<close> does not catch what is not an
  \<^verbatim>\<open>Exception\<close>; \<open>self.tolerate_exceptions\<close> and \<open>self.verbose\<close> are read in the
  handler of the exception, after the call; \<^verbatim>\<open>callback.__name__\<close> is evaluated for
  the first of the three \<^verbatim>\<open>print\<close> calls, and what that reading raises leaves
  \<^verbatim>\<open>fire\<close> in place of \<open>e\<close>.
\<close>

definition try_callback ::
  "('a, 'k, 'w) callbacks \<Rightarrow> pyobj \<Rightarrow> 'a \<Rightarrow> 'k \<Rightarrow> bool \<Rightarrow> ('a, 'k, 'w) state \<Rightarrow>
     (pyexc + bool) \<times> ('a, 'k, 'w) state" where
  "try_callback call callback args kwargs all_ok s =
     (case call callback args kwargs s of
        (None, s') \<Rightarrow> (Inr all_ok, s')
      | (Some e, s') \<Rightarrow>
          if \<not> is_Exception e then (Inl e, s')
          else if \<not> tolerate_exceptions (fst s') then (Inl e, s')
          else if verbose (fst s') then
            (case name_attr callback of
               Inl e' \<Rightarrow> (Inl e', s')
             | Inr nm \<Rightarrow>
                 (Inr False,
                  (print_to (print_to (print_to (fst s')
                     (Line (''WARNING: '' @ nm @ '' produces an exception error.'')))
                     (Arguments args))
                     (Line (str_exc e)), snd s')))
          else (Inr False, s'))"

text \<open>The entry of the history for one call.\<close>

definition invocation_of ::
  "('a, 'k, 'w) callbacks \<Rightarrow> pyobj \<Rightarrow> 'a \<Rightarrow> 'k \<Rightarrow> ('a, 'k, 'w) state \<Rightarrow> ('a, 'k) invocation" where
  "invocation_of call callback args kwargs s =
     Invocation callback args kwargs (fst (call callback args kwargs s))"

text \<open>
  The \<^verbatim>\<open>for\<close> loop of \<^verbatim>\<open>fire\<close> over the list object \<open>r\<close>. Python's list iterator
  keeps the list object and an index; each step compares the index with the current
  length of the list and reads the current element at the index, so the loop sees what
  the callbacks did to the list. A callback that keeps appending makes it run forever,
  hence the \<open>option\<close>: \<open>None\<close> is a loop that does not end.
\<close>

partial_function (option) for_callbacks ::
  "('a, 'k, 'w) callbacks \<Rightarrow> nat \<Rightarrow> nat \<Rightarrow> 'a \<Rightarrow> 'k \<Rightarrow> bool \<Rightarrow> ('a, 'k, 'w) state \<Rightarrow>
     ('a, 'k) invocation list \<Rightarrow> ('a, 'k, 'w) outcome option" where
  "for_callbacks call r i args kwargs all_ok s tr =
     (if i < length (heap (fst s) r) then
        (case try_callback call (heap (fst s) r ! i) args kwargs all_ok s of
           (Inl e, s') \<Rightarrow>
             Some (Inl e, s', tr @ [invocation_of call (heap (fst s) r ! i) args kwargs s])
         | (Inr ok, s') \<Rightarrow>
             for_callbacks call r (Suc i) args kwargs ok s'
               (tr @ [invocation_of call (heap (fst s) r ! i) args kwargs s]))
      else Some (Inr all_ok, s, tr))"

definition fire ::
  "('a, 'k, 'w) callbacks \<Rightarrow> string \<Rightarrow> 'a \<Rightarrow> 'k \<Rightarrow> ('a, 'k, 'w) state \<Rightarrow>
     ('a, 'k) invocation list \<Rightarrow> ('a, 'k, 'w) outcome option" where
  "fire call event_name args kwargs s tr =
     (case map_of (events (fst s)) event_name of
        None \<Rightarrow> Some (Inl (KeyError event_name), s, tr)
      | Some r \<Rightarrow> for_callbacks call r 0 args kwargs True s tr)"

section \<open>The deferred queue\<close>

definition append_request ::
  "('a, 'k) EventHandler \<Rightarrow> string \<Rightarrow> 'a \<Rightarrow> 'k \<Rightarrow> ('a, 'k) EventHandler" where
  "append_request h event_name args kwargs =
     h\<lparr>event_queue := event_queue h @ [(event_name, args, kwargs)]\<rparr>"

text \<open>The \<^verbatim>\<open>while\<close> loop of \<^verbatim>\<open>loop\<close>: \<^verbatim>\<open>popleft\<close>, then \<^verbatim>\<open>fire\<close>. A callback may
  append to the queue while it is drained, so this loop too may not end.\<close>

partial_function (option) while_event_queue ::
  "('a, 'k, 'w) callbacks \<Rightarrow> bool \<Rightarrow> ('a, 'k, 'w) state \<Rightarrow> ('a, 'k) invocation list \<Rightarrow>
     ('a, 'k, 'w) outcome option" where
  "while_event_queue call all_ok s tr =
     (case event_queue (fst s) of
        [] \<Rightarrow> Some (Inr all_ok, s, tr)
      | event # rest \<Rightarrow>
          (case fire call (fst event) (fst (snd event)) (snd (snd event))
                  ((fst s)\<lparr>event_queue := rest\<rparr>, snd s) tr of
             None \<Rightarrow> None
           | Some (Inl e, s', tr') \<Rightarrow> Some (Inl e, s', tr')
           | Some (Inr ok, s', tr') \<Rightarrow> while_event_queue call (ok \<and> all_ok) s' tr'))"

definition loop ::
  "('a, 'k, 'w) callbacks \<Rightarrow> ('a, 'k, 'w) state \<Rightarrow> ('a, 'k) invocation list \<Rightarrow>
     ('a, 'k, 'w) outcome option" where
  "loop call s tr = while_event_queue call True s tr"

section \<open>Construction and printing\<close>

text \<open>\<^verbatim>\<open>[callback.__name__ for callback in self.__events[event]]\<close> and the list
  \<^verbatim>\<open>event_related\<close> of \<^verbatim>\<open>__str__\<close>.\<close>

fun names_of :: "pyobj list \<Rightarrow> pyexc + string list" where
  "names_of [] = Inr []"
| "names_of (callback # cs) =
     (case name_attr callback of
        Inl e \<Rightarrow> Inl e
      | Inr nm \<Rightarrow> (case names_of cs of Inl e \<Rightarrow> Inl e | Inr ns \<Rightarrow> Inr (nm # ns)))"

fun event_related :: "('a, 'k) EventHandler \<Rightarrow> (string \<times> nat) list \<Rightarrow> pyexc + string list" where
  "event_related h [] = Inr []"
| "event_related h (ev # evs) =
     (case names_of (heap h (snd ev)) of
        Inl e \<Rightarrow> Inl e
      | Inr ns \<Rightarrow>
          (case event_related h evs of
             Inl e \<Rightarrow> Inl e
           | Inr rs \<Rightarrow> Inr ((fst ev @ '':['' @ join '', '' ns @ '']'') # rs)))"

definition str_bool :: "bool \<Rightarrow> string" where
  "str_bool b = (if b then ''True'' else ''False'')"

text \<open>\<^verbatim>\<open>__str__\<close>; \<open>mem_address\<close> is \<^verbatim>\<open>str(hex(id(self)))\<close>.\<close>

definition str_handler :: "string \<Rightarrow> ('a, 'k) EventHandler \<Rightarrow> pyexc + string" where
  "str_handler mem_address h =
     (case event_related h (events h) of
        Inl e \<Rightarrow> Inl e
      | Inr rs \<Rightarrow>
          Inr (''<class EventHandler at '' @ mem_address @ '': '' @ join '', '' rs @
               '', verbose='' @ str_bool (verbose h) @
               '', tolerate_exceptions='' @ str_bool (tolerate_exceptions h) @ ''>''))"

text \<open>\<^verbatim>\<open>__init__\<close>: the attribute assignments, then one \<^verbatim>\<open>register_event\<close> per name.\<close>

definition new_handler :: "bool \<Rightarrow> bool \<Rightarrow> ('a, 'k) EventHandler" where
  "new_handler vb tolerate_callbacks_exceptions =
     \<lparr>events = [], heap = (\<lambda>r. []), next_ref = 0, event_queue = [], verbose = vb,
      tolerate_exceptions = tolerate_callbacks_exceptions, stream_output = []\<rparr>"

definition init :: "string list \<Rightarrow> bool \<Rightarrow> bool \<Rightarrow> string \<Rightarrow> pyexc + ('a, 'k) EventHandler" where
  "init event_names vb tolerate_callbacks_exceptions mem_address =
     (let h = fold (\<lambda>event h. snd (register_event h event)) event_names
                (new_handler vb tolerate_callbacks_exceptions)
      in if vb then
           (case str_handler mem_address h of
              Inl e \<Rightarrow> Inl e
            | Inr str \<Rightarrow> Inr (print_to h (Line (str @ '' has been init.''))))
         else Inr h)"

section \<open>What the properties say about callbacks and about the registry\<close>

text \<open>A callback environment leaves the list object \<open>r\<close> as it is; leaves the tolerance
  flag as it is; neither reads nor changes the deferred queue (setting the queue before
  a call is setting it after).\<close>

definition keeps_callbacks :: "('a, 'k, 'w) callbacks \<Rightarrow> nat \<Rightarrow> bool" where
  "keeps_callbacks call r =
     (\<forall>cb a k s. heap (fst (snd (call cb a k s))) r = heap (fst s) r)"

definition keeps_tolerance :: "('a, 'k, 'w) callbacks \<Rightarrow> bool" where
  "keeps_tolerance call =
     (\<forall>cb a k s. tolerate_exceptions (fst (snd (call cb a k s))) = tolerate_exceptions (fst s))"

definition requeue :: "(string \<times> 'a \<times> 'k) list \<Rightarrow> ('a, 'k, 'w) state \<Rightarrow> ('a, 'k, 'w) state" where
  "requeue q s = ((fst s)\<lparr>event_queue := q\<rparr>, snd s)"

definition queue_blind :: "('a, 'k, 'w) callbacks \<Rightarrow> bool" where
  "queue_blind call =
     (\<forall>cb a k s q. call cb a k (requeue q s) =
        (fst (call cb a k s), requeue q (snd (call cb a k s))))"

text \<open>No event's callback sequence holds a callback twice; the callbacks keep a
  property of the handler; every reference of the registry has been allocated.\<close>

definition no_duplicates :: "('a, 'k) EventHandler \<Rightarrow> bool" where
  "no_duplicates h = list_all (\<lambda>ev. distinct (heap h (snd ev))) (events h)"

definition callbacks_keep :: "('a, 'k, 'w) callbacks \<Rightarrow> (('a, 'k) EventHandler \<Rightarrow> bool) \<Rightarrow> bool" where
  "callbacks_keep call I = (\<forall>cb a k s. I (fst s) \<longrightarrow> I (fst (snd (call cb a k s))))"

definition refs_allocated :: "('a, 'k) EventHandler \<Rightarrow> bool" where
  "refs_allocated h = list_all (\<lambda>ev. snd ev < next_ref h) (events h)"

text \<open>A call that returned, or raised what \<^verbatim>\<open>except Exception\<close> catches.\<close>

definition catchable :: "('a, 'k) invocation \<Rightarrow> bool" where
  "catchable c = (case raised c of None \<Rightarrow> True | Some e \<Rightarrow> is_Exception e)"

text \<open>The \<^verbatim>\<open>__name__\<close> of a callback can be read.\<close>

definition has_name :: "pyobj \<Rightarrow> bool" where
  "has_name callback = (case name_attr callback of Inl e \<Rightarrow> False | Inr nm \<Rightarrow> True)"

text \<open>
  The \<^verbatim>\<open>for\<close> loop of \<^verbatim>\<open>fire\<close> over the list object \<open>r\<close> after \<open>j\<close> passes
  through its body, none of which left \<^verbatim>\<open>fire\<close>: the value of \<open>all_ok\<close>, the
  state and the history then; \<open>None\<close> when the loop does not get that far. The pass
  number \<open>j\<close> is over the callback at index \<open>j\<close> of the list as it is by then.
\<close>

fun passes ::
  "('a, 'k, 'w) callbacks \<Rightarrow> nat \<Rightarrow> 'a \<Rightarrow> 'k \<Rightarrow> ('a, 'k, 'w) state \<Rightarrow>
     ('a, 'k) invocation list \<Rightarrow> nat \<Rightarrow>
     (bool \<times> ('a, 'k, 'w) state \<times> ('a, 'k) invocation list) option" where
  "passes call r args kwargs s tr 0 = Some (True, s, tr)"
| "passes call r args kwargs s tr (Suc j) =
     (case passes call r args kwargs s tr j of
        None \<Rightarrow> None
      | Some (all_ok, s1, tr1) \<Rightarrow>
          if j < length (heap (fst s1) r) then
            (case try_callback call (heap (fst s1) r ! j) args kwargs all_ok s1 of
               (Inl e, s2) \<Rightarrow> None
             | (Inr ok, s2) \<Rightarrow>
                 Some (ok, s2, tr1 @ [invocation_of call (heap (fst s1) r ! j) args kwargs s1]))
          else None)"

section \<open>The dispatch as the specification words it\<close>

text \<open>
  The specification's dispatch iterates a snapshot of the callback sequence, in
  registration order, with the per-callback policy of \<open>try_callback\<close>.
\<close>

fun dispatch_snapshot ::
  "('a, 'k, 'w) callbacks \<Rightarrow> pyobj list \<Rightarrow> 'a \<Rightarrow> 'k \<Rightarrow> bool \<Rightarrow> ('a, 'k, 'w) state \<Rightarrow>
     ('a, 'k) invocation list \<Rightarrow> ('a, 'k, 'w) outcome" where
  "dispatch_snapshot call [] args kwargs all_ok s tr = (Inr all_ok, s, tr)"
| "dispatch_snapshot call (cb # cbs) args kwargs all_ok s tr =
     (case try_callback call cb args kwargs all_ok s of
        (Inl e, s') \<Rightarrow> (Inl e, s', tr @ [invocation_of call cb args kwargs s])
      | (Inr ok, s') \<Rightarrow>
          dispatch_snapshot call cbs args kwargs ok s'
            (tr @ [invocation_of call cb args kwargs s]))"

text \<open>
  Calling \<^verbatim>\<open>fire\<close> directly, once per request and in the order of the requests, as a
  caller does whom the first exception stops. The results of the calls are collected
  in order; the requests not reached are returned beside the outcome.
\<close>

fun fire_directly ::
  "('a, 'k, 'w) callbacks \<Rightarrow> (string \<times> 'a \<times> 'k) list \<Rightarrow> ('a, 'k, 'w) state \<Rightarrow>
     ('a, 'k) invocation list \<Rightarrow>
     ((pyexc + bool list) \<times> ('a, 'k, 'w) state \<times> ('a, 'k) invocation list \<times>
      (string \<times> 'a \<times> 'k) list) option" where
  "fire_directly call [] s tr = Some (Inr [], s, tr, [])"
| "fire_directly call (req # reqs) s tr =
     (case fire call (fst req) (fst (snd req)) (snd (snd req)) s tr of
        None \<Rightarrow> None
      | Some (Inl e, s', tr') \<Rightarrow> Some (Inl e, s', tr', reqs)
      | Some (Inr ok, s', tr') \<Rightarrow>
          (case fire_directly call reqs s' tr' of
             None \<Rightarrow> None
           | Some (Inl e, rest) \<Rightarrow> Some (Inl e, rest)
           | Some (Inr oks, rest) \<Rightarrow> Some (Inr (ok # oks), rest)))"

text \<open>What \<^verbatim>\<open>loop\<close> makes of such a run: the conjunction of the results, and the
  requests not reached still in the queue.\<close>

definition drained ::
  "(pyexc + bool list) \<times> ('a, 'k, 'w) state \<times> ('a, 'k) invocation list \<times>
     (string \<times> 'a \<times> 'k) list \<Rightarrow> ('a, 'k, 'w) outcome" where
  "drained run =
     (case run of (res, s', tr', rest) \<Rightarrow>
        (case res of Inl e \<Rightarrow> Inl e | Inr oks \<Rightarrow> Inr (list_all id oks), requeue rest s', tr'))"

text \<open>A sequence of \<^verbatim>\<open>append\<close> calls, one per request.\<close>

definition append_requests ::
  "('a, 'k) EventHandler \<Rightarrow> (string \<times> 'a \<times> 'k) list \<Rightarrow> ('a, 'k) EventHandler" where
  "append_requests h reqs =
     fold (\<lambda>req h. append_request h (fst req) (fst (snd req)) (snd (snd req))) reqs h"

section \<open>A concrete handler\<close>

text \<open>
  The handler of the specification's scenario: constructed with the event \<open>ping\<close>;
  \<open>recordA\<close>, then \<open>recordB\<close> linked to it. Arguments are one string, there are no
  keyword arguments.
\<close>

definition recordA :: pyobj where
  "recordA = Function 1 ''recordA''"

definition recordB :: pyobj where
  "recordB = Function 2 ''recordB''"

definition ping_handler :: "(string, unit) EventHandler" where
  "ping_handler =
     snd (link (snd (link (snd (register_event (new_handler False False) ''ping''))
       recordA ''ping'')) recordB ''ping'')"

definition recordC :: pyobj where
  "recordC = Function 3 ''recordC''"

text \<open>The callbacks of the scenario: a call reads the name of its callee and appends
  \<open>name:argument\<close> to the shared log, which is the rest of the program's state here;
  when the name cannot be read, the call raises what the reading raises.\<close>

definition recording :: "(string, unit, string list) callbacks" where
  "recording cb a k s =
     (case name_attr cb of
        Inl e \<Rightarrow> (Some e, s)
      | Inr nm \<Rightarrow> (None, (fst s, snd s @ [nm @ '':'' @ a])))"

text \<open>The same handler with tolerance enabled; the strict handler with a third callback;
  two exceptions, one an \<^verbatim>\<open>Exception\<close> and one not.\<close>

definition tolerant_ping_handler :: "(string, unit) EventHandler" where
  "tolerant_ping_handler =
     snd (link (snd (link (snd (register_event (new_handler False True) ''ping''))
       recordA ''ping'')) recordB ''ping'')"

definition abc_handler :: "(string, unit) EventHandler" where
  "abc_handler = snd (link ping_handler recordC ''ping'')"

definition boom :: pyexc where
  "boom = OtherException ''ValueError'' ''boom''"


text \<open>Callbacks of which \<open>recordA\<close> raises; callbacks of which \<open>recordA\<close> unlinks itself
  from \<open>ping\<close> while it runs (\<^verbatim>\<open>eh.unlink(recordA, 'ping')\<close> in its body); the
  latter with a \<open>recordB\<close> that raises.\<close>

definition raising :: "pyexc \<Rightarrow> (string, unit, string list) callbacks" where
  "raising e cb a k s = (if cb = recordA then (Some e, s) else recording cb a k s)"

definition self_unlinking :: "(string, unit, string list) callbacks" where
  "self_unlinking cb a k s =
     (if cb = recordA then
        (None, (snd (unlink (fst s) recordA ''ping''), snd s @ [''recordA:'' @ a]))
      else recording cb a k s)"

definition unlinking_raising :: "(string, unit, string list) callbacks" where
  "unlinking_raising cb a k s =
     (if cb = recordB then (Some boom, s) else self_unlinking cb a k s)"

text \<open>A handler with two events, \<open>recordA\<close> linked to \<open>ping\<close> and \<open>recordB\<close> to
  \<open>pong\<close>; callbacks of which \<open>recordA\<close> enqueues a \<open>pong\<close> request while it runs
  (\<^verbatim>\<open>eh.append('pong', args, kwargs)\<close> in its body).\<close>

definition ping_pong_handler :: "(string, unit) EventHandler" where
  "ping_pong_handler =
     snd (link (snd (register_event
       (snd (link (snd (register_event (new_handler False False) ''ping'')) recordA ''ping''))
       ''pong'')) recordB ''pong'')"

definition enqueuing :: "(string, unit, string list) callbacks" where
  "enqueuing cb a k s =
     (if cb = recordA then
        (None, (append_request (fst s) ''pong'' a k, snd s @ [''recordA:'' @ a]))
      else recording cb a k s)"

text \<open>Callbacks of which \<open>recordA\<close> unlinks itself from \<open>ping\<close> and then raises.\<close>

definition unlinking_then_raising :: "(string, unit, string list) callbacks" where
  "unlinking_then_raising cb a k s =
     (if cb = recordA then (Some boom, (snd (unlink (fst s) recordA ''ping''), snd s))
      else recording cb a k s)"

text \<open>The integer 7, which is not callable and has no \<^verbatim>\<open>__name__\<close>.\<close>

definition seven :: pyobj where
  "seven =
     Object 7 (''<class '' @ [apostrophe] @ ''int'' @ [apostrophe] @ ''>'')
       (Inl (AttributeError
          ([apostrophe] @ ''int'' @ [apostrophe] @ '' object has no attribute '' @
           [apostrophe] @ ''__name__'' @ [apostrophe])))"

text \<open>
  A bound method over a \<^verbatim>\<open>functools.partial\<close>, which passes the check of
  \<open>is_callable\<close> and has no \<^verbatim>\<open>__name__\<close>, linked to \<open>ping\<close> on a handler
  constructed with \<^verbatim>\<open>verbose=True\<close>.
\<close>

definition bound_partial :: pyobj where
  "bound_partial =
     Method 4 (Inl (AttributeError
       ([apostrophe] @ ''functools.partial'' @ [apostrophe] @ '' object has no attribute '' @
        [apostrophe] @ ''__name__'' @ [apostrophe])))"

definition verbose_handler :: "(string, unit) EventHandler" where
  "verbose_handler = snd (link (projr (init [''ping''] True False ''0x7f'')) bound_partial ''ping'')"

text \<open>Whether a result is the raise of the handler's own error class.\<close>

fun raises_EventNotAllowedError :: "pyexc + 'b \<Rightarrow> bool" where
  "raises_EventNotAllowedError (Inl e) = is_EventNotAllowedError e"
| "raises_EventNotAllowedError (Inr v) = False"

section \<open>Properties\<close>

subsection \<open>Printing and the dict\<close>

text \<open>Printing changes the stream only; the keys of the dict under assignment and
  deletion.\<close>

lemma heap_print [simp]:
  "heap (print_to h p) = heap h" "events (print_to h p) = events h"
  "next_ref (print_to h p) = next_ref h" "event_queue (print_to h p) = event_queue h"
  "verbose (print_to h p) = verbose h"
  "tolerate_exceptions (print_to h p) = tolerate_exceptions h"
  "stream_output (print_to h p) = stream_output h @ [p]"
  by (simp_all add: print_to_def)

lemma heap_print_if_verbose [simp]:
  "heap (print_if_verbose h m) = heap h" "events (print_if_verbose h m) = events h"
  "next_ref (print_if_verbose h m) = next_ref h"
  "event_queue (print_if_verbose h m) = event_queue h"
  "verbose (print_if_verbose h m) = verbose h"
  "tolerate_exceptions (print_if_verbose h m) = tolerate_exceptions h"
  by (simp_all add: print_if_verbose_def)

lemma callbacks_of_cong:
  "events h' = events h \<Longrightarrow> heap h' = heap h \<Longrightarrow> callbacks_of h' = callbacks_of h"
  by (rule ext) (simp add: callbacks_of_def)

lemma length_update_fresh:
  "map_of al k = None \<Longrightarrow> length (AList.update k v al) = Suc (length al)"
  by (induction al) (auto split: if_splits)

lemma set_update_subset: "set (AList.update k v al) \<subseteq> insert (k, v) (set al)"
  by (induction al) auto

lemma set_delete_subset: "set (AList.delete k al) \<subseteq> set al"
  by (auto simp: AList.delete_eq)

subsection \<open>No callback twice in a sequence\<close>

text \<open>Every operation keeps the property, and so does a loop that ends when the
  callbacks it calls keep it.\<close>

lemma no_duplicates_iff:
  "no_duplicates h \<longleftrightarrow> (\<forall>n r. (n, r) \<in> set (events h) \<longrightarrow> distinct (heap h r))"
  by (auto simp: no_duplicates_def list_all_iff)

lemma no_duplicates_new_handler: "no_duplicates (new_handler v t)"
  by (simp add: no_duplicates_def new_handler_def)

lemma no_duplicates_print [simp]:
  "no_duplicates (print_to h p) = no_duplicates h"
  "no_duplicates (print_if_verbose h m) = no_duplicates h"
  by (simp_all add: no_duplicates_def)

lemma no_duplicates_register_event:
  "no_duplicates h \<Longrightarrow> no_duplicates (snd (register_event h n))"
  using set_update_subset [of n "next_ref h" "events h"]
  by (auto simp: no_duplicates_iff register_event_def)

lemma no_duplicates_unregister_event:
  "no_duplicates h \<Longrightarrow> no_duplicates (snd (unregister_event h n))"
  using set_delete_subset [of n "events h"]
  by (auto simp: no_duplicates_iff unregister_event_def)

lemma no_duplicates_clear_events: "no_duplicates (snd (clear_events h))"
  by (simp add: no_duplicates_def clear_events_def)

lemma no_duplicates_link: "no_duplicates h \<Longrightarrow> no_duplicates (snd (link h cb n))"
  by (auto simp: no_duplicates_iff link_def split: option.splits sum.splits)

lemma no_duplicates_unlink: "no_duplicates h \<Longrightarrow> no_duplicates (snd (unlink h cb n))"
  by (auto simp: no_duplicates_iff unlink_def split: option.splits sum.splits)

lemma no_duplicates_append_request:
  "no_duplicates h \<Longrightarrow> no_duplicates (append_request h n a k)"
  by (simp add: no_duplicates_def append_request_def)

lemma fold_register_no_duplicates:
  "no_duplicates h \<Longrightarrow>
     no_duplicates (fold (\<lambda>event h. snd (register_event h event)) names h)"
  by (induction names arbitrary: h) (simp_all add: no_duplicates_register_event)

lemma no_duplicates_init: "init names v t mem = Inr h \<Longrightarrow> no_duplicates h"
  using fold_register_no_duplicates [OF no_duplicates_new_handler, of names v t]
  by (auto simp: init_def Let_def split: if_splits sum.splits)

lemma link_linked:
  assumes "callbacks_of h n = Some cbs" "cb \<in> set cbs"
  shows "fst (link h cb n) =
           (if is_callable cb \<and> verbose h then
              (case name_attr cb of Inl e \<Rightarrow> Inl e | Inr nm \<Rightarrow> Inr False)
            else Inr False)"
    and "events (snd (link h cb n)) = events h"
    and "heap (snd (link h cb n)) = heap h"
proof -
  from assms obtain r where r: "map_of (events h) n = Some r" "cb \<in> set (heap h r)"
    by (auto simp: callbacks_of_def)
  then have reg: "is_event_registered h n"
    by (simp add: is_event_registered_def)
  show "fst (link h cb n) =
           (if is_callable cb \<and> verbose h then
              (case name_attr cb of Inl e \<Rightarrow> Inl e | Inr nm \<Rightarrow> Inr False)
            else Inr False)"
    using r reg by (auto simp: link_def split: sum.splits)
  show "events (snd (link h cb n)) = events h"
    using r reg by (auto simp: link_def split: sum.splits)
  show "heap (snd (link h cb n)) = heap h"
    using r reg by (auto simp: link_def split: sum.splits)
qed

lemma link_linked_False:
  assumes "callbacks_of h n = Some cbs" "cb \<in> set cbs" "\<not> verbose h \<or> has_name cb"
  shows "fst (link h cb n) = Inr False"
  using assms(3) link_linked(1) [OF assms(1,2)]
  by (auto simp: has_name_def split: sum.splits)

lemma link_True:
  assumes "fst (link h cb n) = Inr True"
  shows "\<exists>r. map_of (events h) n = Some r \<and> cb \<notin> set (heap h r) \<and> is_callable cb \<and>
             snd (link h cb n) = h\<lparr>heap := (heap h)(r := heap h r @ [cb])\<rparr>"
  using assms
  by (auto simp: link_def print_if_verbose_def split: option.splits if_splits sum.splits)

lemma try_callback_keeps:
  assumes "callbacks_keep call I" and "\<And>h p. I (print_to h p) = I h" and "I (fst s)"
  shows "I (fst (snd (try_callback call cb a k ok s)))"
proof -
  have "I (fst (snd (call cb a k s)))"
    using assms(1,3) unfolding callbacks_keep_def by blast
  then show ?thesis
    by (cases "call cb a k s")
       (auto simp: try_callback_def assms(2) split: option.splits sum.splits)
qed

lemma for_callbacks_no_duplicates:
  "for_callbacks call r i a k ok s tr = Some y \<Longrightarrow> callbacks_keep call no_duplicates \<Longrightarrow>
     no_duplicates (fst s) \<Longrightarrow> no_duplicates (fst (fst (snd y)))"
proof (induction rule: for_callbacks.raw_induct[rotated 1, consumes 1])
  case (1 loop call r i a k ok s tr y)
  let ?cb = "heap (fst s) r ! i"
  have step: "no_duplicates (fst (snd (try_callback call ?cb a k ok s)))"
    using "1.prems"(1) no_duplicates_print(1) "1.prems"(2) by (rule try_callback_keeps)
  show ?case
  proof (cases "i < length (heap (fst s) r)")
    case False
    with "1.hyps" "1.prems" show ?thesis by auto
  next
    case True
    obtain res s' where Pair: "try_callback call ?cb a k ok s = (res, s')"
      by (meson surj_pair)
    with step have I': "no_duplicates (fst s')" by simp
    show ?thesis
    proof (cases res)
      case (Inl e)
      with True Pair "1.hyps" I' show ?thesis by auto
    next
      case (Inr ok')
      with True Pair "1.hyps" have "loop call r (Suc i) a k ok' s'
          (tr @ [invocation_of call ?cb a k s]) = Some y" by simp
      then show ?thesis using "1.prems"(1) I' by (rule "1.IH")
    qed
  qed
qed

lemma fire_no_duplicates:
  "fire call n a k s tr = Some y \<Longrightarrow> callbacks_keep call no_duplicates \<Longrightarrow>
     no_duplicates (fst s) \<Longrightarrow> no_duplicates (fst (fst (snd y)))"
  by (auto simp: fire_def split: option.splits dest: for_callbacks_no_duplicates)

lemma while_event_queue_no_duplicates:
  "while_event_queue call ok s tr = Some y \<Longrightarrow> callbacks_keep call no_duplicates \<Longrightarrow>
     no_duplicates (fst s) \<Longrightarrow> no_duplicates (fst (fst (snd y)))"
proof (induction rule: while_event_queue.raw_induct[rotated 1, consumes 1])
  case (1 loop call ok s tr y)
  show ?case
  proof (cases "event_queue (fst s)")
    case Nil
    with "1.hyps" "1.prems" show ?thesis by auto
  next
    case (Cons event rest)
    let ?s = "((fst s)\<lparr>event_queue := rest\<rparr>, snd s)"
    have nd: "no_duplicates (fst ?s)"
      using "1.prems"(2) by (simp add: no_duplicates_def)
    from Cons "1.hyps" obtain res s' tr' where
      f: "fire call (fst event) (fst (snd event)) (snd (snd event)) ?s tr = Some (res, s', tr')"
      by (auto split: option.splits)
    from fire_no_duplicates [OF f "1.prems"(1) nd] have I': "no_duplicates (fst s')" by simp
    show ?thesis
    proof (cases res)
      case (Inl e)
      with Cons f "1.hyps" I' show ?thesis by auto
    next
      case (Inr b)
      with Cons f "1.hyps" have "loop call (b \<and> ok) s' tr' = Some y" by simp
      then show ?thesis using "1.prems"(1) I' by (rule "1.IH")
    qed
  qed
qed

text \<open>Together: \<open>link\<close> of a callback that is already linked leaves every callback
  sequence as it was, and returns False unless the handler is verbose and reading the
  name of the callback raises; no operation puts a callback twice into a sequence.\<close>

lemma link_again:
  "(callbacks_of h n = Some cbs \<and> cb \<in> set cbs \<longrightarrow>
      callbacks_of (snd (link h cb n)) = callbacks_of h \<and>
      fst (link h cb n) =
        (if is_callable cb \<and> verbose h then
           (case name_attr cb of Inl e \<Rightarrow> Inl e | Inr nm \<Rightarrow> Inr False)
         else Inr False)) \<and>
   (fst (link h cb n) = Inr True \<longrightarrow>
      callbacks_of (snd (link (snd (link h cb n)) cb n)) = callbacks_of (snd (link h cb n)) \<and>
      (\<not> verbose h \<or> has_name cb \<longrightarrow>
         fst (link (snd (link h cb n)) cb n) = Inr False)) \<and>
   (no_duplicates h \<longrightarrow>
      no_duplicates (snd (link h cb n)) \<and>
      no_duplicates (snd (unlink h cb n)) \<and>
      no_duplicates (snd (register_event h n)) \<and>
      no_duplicates (snd (unregister_event h n)) \<and>
      no_duplicates (append_request h n a k) \<and>
      (callbacks_keep call no_duplicates \<longrightarrow>
         (\<forall>y. fire call n a k (h, w) tr = Some y \<longrightarrow> no_duplicates (fst (fst (snd y)))) \<and>
         (\<forall>y. loop call (h, w) tr = Some y \<longrightarrow> no_duplicates (fst (fst (snd y)))))) \<and>
   no_duplicates (snd (clear_events h)) \<and>
   no_duplicates (new_handler v t :: ('a, 'k) EventHandler) \<and>
   (\<forall>h0 :: ('a, 'k) EventHandler. init names v t mem = Inr h0 \<longrightarrow> no_duplicates h0)"
proof (intro conjI impI allI)
  assume linked: "callbacks_of h n = Some cbs \<and> cb \<in> set cbs"
  then show "fst (link h cb n) =
        (if is_callable cb \<and> verbose h then
           (case name_attr cb of Inl e \<Rightarrow> Inl e | Inr nm \<Rightarrow> Inr False)
         else Inr False)"
    by (blast intro: link_linked(1))
  from linked show "callbacks_of (snd (link h cb n)) = callbacks_of h"
    by (intro callbacks_of_cong) (blast intro: link_linked(2,3))+
next
  assume "fst (link h cb n) = Inr True"
  from link_True [OF this] obtain r where
    r: "map_of (events h) n = Some r" and
    h': "snd (link h cb n) = h\<lparr>heap := (heap h)(r := heap h r @ [cb])\<rparr>"
    by blast
  have now: "callbacks_of (snd (link h cb n)) n = Some (heap h r @ [cb])"
    "cb \<in> set (heap h r @ [cb])"
    using r by (simp_all add: h' callbacks_of_def)
  show "callbacks_of (snd (link (snd (link h cb n)) cb n)) = callbacks_of (snd (link h cb n))"
    by (intro callbacks_of_cong link_linked(2,3) [OF now])
  assume "\<not> verbose h \<or> has_name cb"
  then have "\<not> verbose (snd (link h cb n)) \<or> has_name cb"
    by (simp add: h')
  with now show "fst (link (snd (link h cb n)) cb n) = Inr False"
    by (rule link_linked_False)
next
  fix y assume "no_duplicates h" "callbacks_keep call no_duplicates"
    "fire call n a k (h, w) tr = Some y"
  then show "no_duplicates (fst (fst (snd y)))"
    using fire_no_duplicates [of call n a k "(h, w)" tr y] by simp
next
  fix y assume "no_duplicates h" "callbacks_keep call no_duplicates"
    "loop call (h, w) tr = Some y"
  then show "no_duplicates (fst (fst (snd y)))"
    using while_event_queue_no_duplicates [of call True "(h, w)" tr y] by (simp add: loop_def)
qed (simp_all add: no_duplicates_link no_duplicates_unlink no_duplicates_register_event
    no_duplicates_unregister_event no_duplicates_append_request no_duplicates_clear_events
    no_duplicates_new_handler no_duplicates_init)

subsection \<open>The loop of fire\<close>

text \<open>What one pass through the \<^verbatim>\<open>try\<close> statement does; when no callback changes the
  list object that \<open>fire\<close> iterates, the loop over the live list ends and does what
  the dispatch over a snapshot does; a run of the loop that ends, whatever the callbacks
  did to the list, is the dispatch over the callbacks it met.\<close>

lemma invocation_of_simps [simp]:
  "callee (invocation_of call cb a k s) = cb"
  "pos_args (invocation_of call cb a k s) = a"
  "kw_args (invocation_of call cb a k s) = k"
  "raised (invocation_of call cb a k s) = fst (call cb a k s)"
  by (simp_all add: invocation_of_def)

lemma try_callback_heap:
  "keeps_callbacks call r \<Longrightarrow>
     heap (fst (snd (try_callback call cb a k ok s))) r = heap (fst s) r"
proof -
  assume "keeps_callbacks call r"
  then have "heap (fst (snd (call cb a k s))) r = heap (fst s) r"
    unfolding keeps_callbacks_def by blast
  then show ?thesis
    by (cases "call cb a k s") (auto simp: try_callback_def split: option.splits sum.splits)
qed

lemma try_callback_tolerance:
  "keeps_tolerance call \<Longrightarrow>
     tolerate_exceptions (fst (snd (try_callback call cb a k ok s))) =
     tolerate_exceptions (fst s)"
proof -
  assume "keeps_tolerance call"
  then have "tolerate_exceptions (fst (snd (call cb a k s))) = tolerate_exceptions (fst s)"
    unfolding keeps_tolerance_def by blast
  then show ?thesis
    by (cases "call cb a k s") (auto simp: try_callback_def split: option.splits sum.splits)
qed

lemma try_callback_Inr:
  assumes "try_callback call cb a k ok s = (Inr ok', s')"
  shows "(fst (call cb a k s) = None \<and> ok' = ok) \<or>
         (\<exists>e. fst (call cb a k s) = Some e \<and> is_Exception e \<and> \<not> ok' \<and>
              tolerate_exceptions (fst (snd (call cb a k s))))"
  using assms
  by (cases "call cb a k s")
     (auto simp: try_callback_def split: option.splits if_splits sum.splits)

lemma try_callback_Inl:
  assumes "try_callback call cb a k ok s = (Inl e, s')"
  shows "\<exists>e'. fst (call cb a k s) = Some e' \<and>
           (e = e' \<and> (\<not> is_Exception e' \<or> \<not> tolerate_exceptions (fst (snd (call cb a k s)))) \<or>
            name_attr cb = Inl e \<and> is_Exception e' \<and>
              tolerate_exceptions (fst (snd (call cb a k s))))"
  using assms
  by (cases "call cb a k s")
     (auto simp: try_callback_def split: option.splits if_splits sum.splits)

lemma for_callbacks_snapshot:
  assumes keeps: "keeps_callbacks call r"
  shows "for_callbacks call r i a k ok s tr =
           Some (dispatch_snapshot call (drop i (heap (fst s) r)) a k ok s tr)"
proof (induction "length (heap (fst s) r) - i" arbitrary: i ok s tr)
  case 0
  then show ?case
    by (subst for_callbacks.simps) simp
next
  case (Suc m)
  let ?cbs = "heap (fst s) r"
  from Suc.hyps(2) have i: "i < length ?cbs" by simp
  then have dr: "drop i ?cbs = ?cbs ! i # drop (Suc i) ?cbs"
    by (simp add: Cons_nth_drop_Suc)
  obtain res s' where step: "try_callback call (?cbs ! i) a k ok s = (res, s')"
    by (meson surj_pair)
  with try_callback_heap [OF keeps, of "?cbs ! i" a k ok s]
  have same: "heap (fst s') r = ?cbs" by simp
  show ?case
  proof (cases res)
    case (Inl e)
    with i dr step show ?thesis
      by (subst for_callbacks.simps) simp
  next
    case (Inr ok')
    from Suc.hyps(2) same have "m = length (heap (fst s') r) - Suc i" by simp
    from Suc.hyps(1) [OF this]
    have "for_callbacks call r (Suc i) a k ok' s' (tr @ [invocation_of call (?cbs ! i) a k s]) =
      Some (dispatch_snapshot call (drop (Suc i) ?cbs) a k ok' s'
             (tr @ [invocation_of call (?cbs ! i) a k s]))"
      by (simp add: same)
    with i dr step Inr show ?thesis
      by (subst for_callbacks.simps) simp
  qed
qed

lemma fire_snapshot:
  "keeps_callbacks call r \<Longrightarrow> map_of (events (fst s)) n = Some r \<Longrightarrow>
     fire call n a k s tr = Some (dispatch_snapshot call (heap (fst s) r) a k True s tr)"
  by (simp add: fire_def for_callbacks_snapshot)

lemma fire_returns:
  "\<forall>r. keeps_callbacks call r \<Longrightarrow> \<exists>y. fire call n a k s tr = Some y"
proof (cases "map_of (events (fst s)) n")
  case None
  then have "fire call n a k s tr = Some (Inl (KeyError n), s, tr)"
    by (simp add: fire_def)
  then show ?thesis by blast
next
  case (Some r)
  assume "\<forall>r. keeps_callbacks call r"
  with Some have "fire call n a k s tr =
      Some (dispatch_snapshot call (heap (fst s) r) a k True s tr)"
    by (simp add: fire_snapshot)
  then show ?thesis by blast
qed

lemma for_callbacks_run:
  "for_callbacks call r i a k ok s tr = Some y \<Longrightarrow>
     callbacks_keep call (\<lambda>h. list_all P (heap h r)) \<Longrightarrow> list_all P (heap (fst s) r) \<Longrightarrow>
     \<exists>cbs. list_all P cbs \<and> dispatch_snapshot call cbs a k ok s tr = y"
proof (induction rule: for_callbacks.raw_induct[rotated 1, consumes 1])
  case (1 loop call r i a k ok s tr y)
  let ?cb = "heap (fst s) r ! i"
  show ?case
  proof (cases "i < length (heap (fst s) r)")
    case False
    with "1.hyps" have "dispatch_snapshot call [] a k ok s tr = y" by simp
    then show ?thesis by (intro exI [of _ "[]"]) simp
  next
    case True
    with "1.prems"(2) have P: "P ?cb" by (simp add: list_all_length)
    obtain res s' where step: "try_callback call ?cb a k ok s = (res, s')"
      by (meson surj_pair)
    have "list_all P (heap (fst (snd (try_callback call ?cb a k ok s))) r)"
      using "1.prems"(1) _ "1.prems"(2) by (rule try_callback_keeps) simp
    with step have inv: "list_all P (heap (fst s') r)" by simp
    show ?thesis
    proof (cases res)
      case (Inl e)
      with True step "1.hyps" have "dispatch_snapshot call [?cb] a k ok s tr = y" by simp
      with P show ?thesis by (intro exI [of _ "[?cb]"]) simp
    next
      case (Inr ok')
      with True step "1.hyps" have "loop call r (Suc i) a k ok' s'
          (tr @ [invocation_of call ?cb a k s]) = Some y" by simp
      from "1.IH" [OF this "1.prems"(1) inv] obtain cbs where
        "list_all P cbs"
        "dispatch_snapshot call cbs a k ok' s' (tr @ [invocation_of call ?cb a k s]) = y"
        by blast
      with P step Inr show ?thesis by (intro exI [of _ "?cb # cbs"]) simp
    qed
  qed
qed

lemma fire_run:
  assumes "fire call n a k s tr = Some y" and "map_of (events (fst s)) n = Some r"
    and "callbacks_keep call (\<lambda>h. list_all P (heap h r))" and "list_all P (heap (fst s) r)"
  shows "\<exists>cbs. list_all P cbs \<and> dispatch_snapshot call cbs a k True s tr = y"
  using assms for_callbacks_run [of call r 0 a k True s tr y P]
  by (simp add: fire_def)

lemma callbacks_keep_True: "callbacks_keep call (\<lambda>h. list_all (\<lambda>cb. True) (heap h r))"
  by (simp add: callbacks_keep_def list_all_iff)

text \<open>A \<open>fire\<close> that returns a value went through the whole list as it then is. The
  loop after \<open>j\<close> passes: \<open>fire\<close> is the loop from there on, so it returns as soon as
  the list is exhausted and raises as soon as a pass raises; the history and \<open>all_ok\<close>
  by then.\<close>

lemma for_callbacks_through:
  "for_callbacks call r i a k ok s tr = Some y \<Longrightarrow>
     (case fst y of
        Inl e \<Rightarrow> True
      | Inr b \<Rightarrow> length (heap (fst (fst (snd y))) r) + length tr \<le> i + length (snd (snd y)))"
proof (induction rule: for_callbacks.raw_induct[rotated 1, consumes 1])
  case (1 loop call r i a k ok s tr y)
  let ?cb = "heap (fst s) r ! i"
  show ?case
  proof (cases "i < length (heap (fst s) r)")
    case False
    with "1.hyps" show ?thesis by auto
  next
    case True
    obtain res s' where step: "try_callback call ?cb a k ok s = (res, s')"
      by (meson surj_pair)
    show ?thesis
    proof (cases res)
      case (Inl e)
      with True step "1.hyps" show ?thesis by auto
    next
      case (Inr ok')
      with True step "1.hyps" have "loop call r (Suc i) a k ok' s'
          (tr @ [invocation_of call ?cb a k s]) = Some y" by simp
      from "1.IH" [OF this] show ?thesis by (simp split: sum.splits)
    qed
  qed
qed

lemma fire_through:
  assumes "fire call n a k s tr = Some (Inr b, s', tr @ new)"
    and "map_of (events (fst s)) n = Some r"
  shows "length (heap (fst s') r) \<le> length new"
  using assms for_callbacks_through [of call r 0 a k True s tr "(Inr b, s', tr @ new)"]
  by (simp add: fire_def)

lemma passes_Suc:
  assumes "passes call r a k s tr (Suc j) = Some (ok, s2, tr2)"
  obtains ok1 s1 tr1 where "passes call r a k s tr j = Some (ok1, s1, tr1)"
    and "j < length (heap (fst s1) r)"
    and "try_callback call (heap (fst s1) r ! j) a k ok1 s1 = (Inr ok, s2)"
    and "tr2 = tr1 @ [invocation_of call (heap (fst s1) r ! j) a k s1]"
  using assms by (auto split: option.splits if_splits prod.splits sum.splits)

lemma passes_for_callbacks:
  "passes call r a k s tr j = Some (ok, s1, tr1) \<Longrightarrow>
     for_callbacks call r 0 a k True s tr = for_callbacks call r j a k ok s1 tr1"
proof (induction j arbitrary: ok s1 tr1)
  case 0
  then show ?case by simp
next
  case (Suc j)
  from Suc.prems obtain ok0 s0 tr0 where
    before: "passes call r a k s tr j = Some (ok0, s0, tr0)"
    and j: "j < length (heap (fst s0) r)"
    and step: "try_callback call (heap (fst s0) r ! j) a k ok0 s0 = (Inr ok, s1)"
    and tr1: "tr1 = tr0 @ [invocation_of call (heap (fst s0) r ! j) a k s0]"
    by (rule passes_Suc)
  from Suc.IH [OF before]
  have "for_callbacks call r 0 a k True s tr = for_callbacks call r j a k ok0 s0 tr0" .
  also from j step tr1 have "\<dots> = for_callbacks call r (Suc j) a k ok s1 tr1"
    by (subst for_callbacks.simps) simp
  finally show ?case .
qed

lemma passes_tolerance:
  assumes "keeps_tolerance call"
  shows "passes call r a k s tr j = Some (ok, s1, tr1) \<Longrightarrow>
           tolerate_exceptions (fst s1) = tolerate_exceptions (fst s)"
proof (induction j arbitrary: ok s1 tr1)
  case 0
  then show ?case by simp
next
  case (Suc j)
  from Suc.prems obtain ok0 s0 tr0 where
    before: "passes call r a k s tr j = Some (ok0, s0, tr0)"
    and step: "try_callback call (heap (fst s0) r ! j) a k ok0 s0 = (Inr ok, s1)"
    by (rule passes_Suc)
  from try_callback_tolerance [OF assms, of "heap (fst s0) r ! j" a k ok0 s0] step
  have "tolerate_exceptions (fst s1) = tolerate_exceptions (fst s0)" by simp
  with Suc.IH [OF before] show ?case by simp
qed

lemma passes_history:
  "passes call r a k s tr j = Some (ok, s1, tr1) \<Longrightarrow>
     \<exists>new. tr1 = tr @ new \<and> length new = j \<and>
       (\<forall>c \<in> set new. pos_args c = a \<and> kw_args c = k) \<and>
       list_all catchable new \<and> (ok \<longleftrightarrow> (\<forall>c \<in> set new. raised c = None))"
proof (induction j arbitrary: ok s1 tr1)
  case 0
  then show ?case by simp
next
  case (Suc j)
  from Suc.prems obtain ok0 s0 tr0 where
    before: "passes call r a k s tr j = Some (ok0, s0, tr0)"
    and step: "try_callback call (heap (fst s0) r ! j) a k ok0 s0 = (Inr ok, s1)"
    and tr1: "tr1 = tr0 @ [invocation_of call (heap (fst s0) r ! j) a k s0]"
    by (rule passes_Suc)
  let ?inv = "invocation_of call (heap (fst s0) r ! j) a k s0"
  from Suc.IH [OF before] obtain new where
    new: "tr0 = tr @ new" "length new = j" "\<forall>c \<in> set new. pos_args c = a \<and> kw_args c = k"
      "list_all catchable new" "ok0 \<longleftrightarrow> (\<forall>c \<in> set new. raised c = None)"
    by blast
  from try_callback_Inr [OF step]
  have "catchable ?inv" "ok \<longleftrightarrow> ok0 \<and> raised ?inv = None"
    by (auto simp: catchable_def)
  with new tr1 show ?case
    by (intro exI [of _ "new @ [?inv]"]) auto
qed

lemma passes_strict:
  assumes "keeps_tolerance call" and "\<not> tolerate_exceptions (fst s)"
    and "passes call r a k s tr j = Some (ok, s1, tr1)"
  shows "\<exists>new. tr1 = tr @ new \<and> length new = j \<and> (\<forall>c \<in> set new. raised c = None)"
  using assms(3)
proof (induction j arbitrary: ok s1 tr1)
  case 0
  then show ?case by simp
next
  case (Suc j)
  from Suc.prems obtain ok0 s0 tr0 where
    before: "passes call r a k s tr j = Some (ok0, s0, tr0)"
    and step: "try_callback call (heap (fst s0) r ! j) a k ok0 s0 = (Inr ok, s1)"
    and tr1: "tr1 = tr0 @ [invocation_of call (heap (fst s0) r ! j) a k s0]"
    by (rule passes_Suc)
  let ?cb = "heap (fst s0) r ! j"
  let ?inv = "invocation_of call ?cb a k s0"
  from Suc.IH [OF before] obtain new where
    new: "tr0 = tr @ new" "length new = j" "\<forall>c \<in> set new. raised c = None"
    by blast
  from passes_tolerance [OF assms(1) before] assms(2)
  have "\<not> tolerate_exceptions (fst s0)" by simp
  moreover from assms(1)
  have "tolerate_exceptions (fst (snd (call ?cb a k s0))) = tolerate_exceptions (fst s0)"
    unfolding keeps_tolerance_def by blast
  ultimately have "\<not> tolerate_exceptions (fst (snd (call ?cb a k s0)))" by simp
  with try_callback_Inr [OF step] have "raised ?inv = None" by auto
  with new tr1 show ?case
    by (intro exI [of _ "new @ [?inv]"]) auto
qed

lemma passes_ends:
  assumes "passes call r a k s tr j = Some (ok, s1, tr1)"
    and "length (heap (fst s1) r) \<le> j" and "map_of (events (fst s)) n = Some r"
  shows "fire call n a k s tr = Some (Inr ok, s1, tr1)"
proof -
  from assms(2) have "for_callbacks call r j a k ok s1 tr1 = Some (Inr ok, s1, tr1)"
    by (subst for_callbacks.simps) simp
  with passes_for_callbacks [OF assms(1)] assms(3) show ?thesis
    by (simp add: fire_def)
qed

lemma passes_raises:
  assumes "passes call r a k s tr j = Some (ok, s1, tr1)"
    and "j < length (heap (fst s1) r)" and "map_of (events (fst s)) n = Some r"
    and "fst (call (heap (fst s1) r ! j) a k s1) = Some e"
    and "\<not> is_Exception e \<or> \<not> tolerate_exceptions (fst (snd (call (heap (fst s1) r ! j) a k s1)))"
  shows "fire call n a k s tr =
           Some (Inl e, snd (call (heap (fst s1) r ! j) a k s1),
                 tr1 @ [Invocation (heap (fst s1) r ! j) a k (Some e)])"
proof -
  let ?cb = "heap (fst s1) r ! j"
  from assms(4,5) have "try_callback call ?cb a k ok s1 = (Inl e, snd (call ?cb a k s1))"
    by (cases "call ?cb a k s1") (auto simp: try_callback_def)
  moreover from assms(4) have "invocation_of call ?cb a k s1 = Invocation ?cb a k (Some e)"
    by (simp add: invocation_of_def)
  ultimately have "for_callbacks call r j a k ok s1 tr1 =
      Some (Inl e, snd (call ?cb a k s1), tr1 @ [Invocation ?cb a k (Some e)])"
    using assms(2) by (subst for_callbacks.simps) simp
  with passes_for_callbacks [OF assms(1)] assms(3) show ?thesis
    by (simp add: fire_def)
qed


subsection \<open>The dispatch over a snapshot\<close>

text \<open>Order and arguments of the calls, the strict and the tolerant policy, by induction
  on the snapshot.\<close>

lemma dispatch_order:
  "\<exists>res s' new. dispatch_snapshot call cbs a k ok s tr = (res, s', tr @ new) \<and>
     prefix (map callee new) cbs \<and>
     (\<forall>c \<in> set new. pos_args c = a \<and> kw_args c = k) \<and>
     (case res of
        Inl e \<Rightarrow> new \<noteq> [] \<and> raised (last new) \<noteq> None
      | Inr b \<Rightarrow> map callee new = cbs)"
proof (induction cbs arbitrary: ok s tr)
  case Nil
  show ?case by simp
next
  case (Cons cb cbs)
  let ?inv = "invocation_of call cb a k s"
  obtain res1 s1 where step: "try_callback call cb a k ok s = (res1, s1)"
    by (meson surj_pair)
  show ?case
  proof (cases res1)
    case (Inl e)
    with step try_callback_Inl [of call cb a k ok s e s1]
    have "raised ?inv \<noteq> None" by auto
    moreover from Inl step
    have "dispatch_snapshot call (cb # cbs) a k ok s tr = (Inl e, s1, tr @ [?inv])"
      by simp
    ultimately show ?thesis by force
  next
    case (Inr ok1)
    from Cons.IH [of ok1 s1 "tr @ [?inv]"] obtain res s' new where
      rest: "dispatch_snapshot call cbs a k ok1 s1 (tr @ [?inv]) = (res, s', (tr @ [?inv]) @ new)"
      and pre: "prefix (map callee new) cbs"
      and args: "\<forall>c \<in> set new. pos_args c = a \<and> kw_args c = k"
      and res: "case res of
          Inl e \<Rightarrow> new \<noteq> [] \<and> raised (last new) \<noteq> None
        | Inr b \<Rightarrow> map callee new = cbs"
      by blast
    from step Inr rest
    have "dispatch_snapshot call (cb # cbs) a k ok s tr = (res, s', tr @ (?inv # new))"
      by simp
    moreover have "prefix (map callee (?inv # new)) (cb # cbs)"
      using pre by simp
    moreover have "\<forall>c \<in> set (?inv # new). pos_args c = a \<and> kw_args c = k"
      using args by simp
    moreover have "case res of
          Inl e \<Rightarrow> ?inv # new \<noteq> [] \<and> raised (last (?inv # new)) \<noteq> None
        | Inr b \<Rightarrow> map callee (?inv # new) = cb # cbs"
      using res by (auto split: sum.splits)
    ultimately show ?thesis
      by - (rule exI [of _ res], rule exI [of _ s'], rule exI [of _ "?inv # new"], simp)
  qed
qed

lemma dispatch_strict:
  assumes keeps: "keeps_tolerance call"
  shows "\<not> tolerate_exceptions (fst s) \<Longrightarrow>
     \<exists>res s' new. dispatch_snapshot call cbs a k ok s tr = (res, s', tr @ new) \<and>
       prefix (map callee new) cbs \<and>
       (\<forall>c \<in> set (butlast new). raised c = None) \<and>
       (case res of
          Inl e \<Rightarrow> new \<noteq> [] \<and> raised (last new) = Some e
        | Inr b \<Rightarrow> b = ok \<and> map callee new = cbs \<and> (\<forall>c \<in> set new. raised c = None))"
proof (induction cbs arbitrary: ok s tr)
  case Nil
  show ?case by simp
next
  case (Cons cb cbs)
  let ?inv = "invocation_of call cb a k s"
  from keeps Cons.prems have strict: "\<not> tolerate_exceptions (fst (snd (call cb a k s)))"
    unfolding keeps_tolerance_def by blast
  obtain res1 s1 where step: "try_callback call cb a k ok s = (res1, s1)"
    by (meson surj_pair)
  show ?case
  proof (cases res1)
    case (Inl e)
    with step try_callback_Inl [of call cb a k ok s e s1] strict
    have "raised ?inv = Some e" by auto
    moreover from Inl step
    have "dispatch_snapshot call (cb # cbs) a k ok s tr = (Inl e, s1, tr @ [?inv])"
      by simp
    ultimately show ?thesis by force
  next
    case (Inr ok1)
    with step try_callback_Inr [of call cb a k ok s ok1 s1] strict
    have ok1: "ok1 = ok" and none: "raised ?inv = None" by auto
    from try_callback_tolerance [OF keeps, of cb a k ok s] step Cons.prems
    have "\<not> tolerate_exceptions (fst s1)" by simp
    from Cons.IH [OF this, of ok1 "tr @ [?inv]"] obtain res s' new where
      rest: "dispatch_snapshot call cbs a k ok1 s1 (tr @ [?inv]) = (res, s', (tr @ [?inv]) @ new)"
      and pre: "prefix (map callee new) cbs"
      and before: "\<forall>c \<in> set (butlast new). raised c = None"
      and res: "case res of
          Inl e \<Rightarrow> new \<noteq> [] \<and> raised (last new) = Some e
        | Inr b \<Rightarrow> b = ok1 \<and> map callee new = cbs \<and> (\<forall>c \<in> set new. raised c = None)"
      by blast
    from step Inr rest
    have "dispatch_snapshot call (cb # cbs) a k ok s tr = (res, s', tr @ (?inv # new))"
      by simp
    moreover have "prefix (map callee (?inv # new)) (cb # cbs)"
      using pre by simp
    moreover have "\<forall>c \<in> set (butlast (?inv # new)). raised c = None"
      using before none by (auto split: if_splits)
    moreover have "case res of
          Inl e \<Rightarrow> ?inv # new \<noteq> [] \<and> raised (last (?inv # new)) = Some e
        | Inr b \<Rightarrow> b = ok \<and> map callee (?inv # new) = cb # cbs \<and>
                   (\<forall>c \<in> set (?inv # new). raised c = None)"
      using res none ok1 by (auto split: sum.splits)
    ultimately show ?thesis
      by - (rule exI [of _ res], rule exI [of _ s'], rule exI [of _ "?inv # new"], simp)
  qed
qed


subsection \<open>The loop of loop\<close>

text \<open>Callbacks that neither read nor change the queue: \<open>fire\<close> commutes with setting
  the queue and leaves it as it was, and the \<^verbatim>\<open>while\<close> loop is the sequence of
  direct calls. A \<open>loop\<close> that returns a value leaves the queue empty.\<close>

lemma requeue_simps [simp]:
  "fst (requeue q s) = (fst s)\<lparr>event_queue := q\<rparr>"
  "snd (requeue q s) = snd s"
  "requeue q (requeue q' s) = requeue q s"
  by (simp_all add: requeue_def)

lemma requeue_same: "event_queue (fst s) = q \<Longrightarrow> requeue q s = s"
  by (cases s) (simp add: requeue_def)

lemma call_requeue:
  "queue_blind call \<Longrightarrow>
     call cb a k (requeue q s) = (fst (call cb a k s), requeue q (snd (call cb a k s)))"
  unfolding queue_blind_def by blast

lemma try_callback_requeue:
  assumes "queue_blind call"
  shows "try_callback call cb a k ok (requeue q s) =
           (fst (try_callback call cb a k ok s), requeue q (snd (try_callback call cb a k ok s)))"
proof -
  obtain x s1 where c: "call cb a k s = (x, s1)" by (meson surj_pair)
  with call_requeue [OF assms, of cb a k q s]
  have "call cb a k (requeue q s) = (x, requeue q s1)" by simp
  with c show ?thesis
    by (cases s1)
       (auto simp: try_callback_def requeue_def print_to_def split: option.splits sum.splits)
qed

lemma invocation_of_requeue:
  "queue_blind call \<Longrightarrow> invocation_of call cb a k (requeue q s) = invocation_of call cb a k s"
  by (simp add: invocation_of_def call_requeue)

lemma for_callbacks_requeue_Some:
  "for_callbacks call r i a k ok s tr = Some y \<Longrightarrow> queue_blind call \<Longrightarrow>
     for_callbacks call r i a k ok (requeue q s) tr =
       Some (fst y, requeue q (fst (snd y)), snd (snd y))"
proof (induction rule: for_callbacks.raw_induct[rotated 1, consumes 1])
  case (1 loop call r i a k ok s tr y)
  let ?cb = "heap (fst s) r ! i"
  show ?case
  proof (cases "i < length (heap (fst s) r)")
    case False
    with "1.hyps" show ?thesis
      by (subst for_callbacks.simps) auto
  next
    case True
    obtain res s' where step: "try_callback call ?cb a k ok s = (res, s')"
      by (meson surj_pair)
    with try_callback_requeue [OF "1.prems", of ?cb a k ok q s]
    have stepq: "try_callback call ?cb a k ok (requeue q s) = (res, requeue q s')" by simp
    show ?thesis
    proof (cases res)
      case (Inl e)
      with True step stepq "1.hyps" "1.prems" show ?thesis
        by (subst for_callbacks.simps) (auto simp: invocation_of_requeue)
    next
      case (Inr ok')
      with True step "1.hyps" have "loop call r (Suc i) a k ok' s'
          (tr @ [invocation_of call ?cb a k s]) = Some y" by simp
      from "1.IH" [OF this "1.prems"] True stepq Inr "1.prems" show ?thesis
        by (subst for_callbacks.simps) (simp add: invocation_of_requeue)
    qed
  qed
qed

lemma for_callbacks_requeue:
  assumes "queue_blind call"
  shows "for_callbacks call r i a k ok (requeue q s) tr =
           map_option (\<lambda>y. (fst y, requeue q (fst (snd y)), snd (snd y)))
             (for_callbacks call r i a k ok s tr)"
proof (cases "for_callbacks call r i a k ok s tr")
  case (Some y)
  with for_callbacks_requeue_Some [OF Some assms, of q] show ?thesis by simp
next
  case None
  have "for_callbacks call r i a k ok (requeue q s) tr = None"
  proof (rule ccontr)
    assume "for_callbacks call r i a k ok (requeue q s) tr \<noteq> None"
    then obtain y where "for_callbacks call r i a k ok (requeue q s) tr = Some y" by blast
    from for_callbacks_requeue_Some [OF this assms, of "event_queue (fst s)"] None
    show False by (simp add: requeue_same)
  qed
  with None show ?thesis by simp
qed

lemma fire_requeue:
  assumes "queue_blind call"
  shows "fire call n a k (requeue q s) tr =
           map_option (\<lambda>y. (fst y, requeue q (fst (snd y)), snd (snd y)))
             (fire call n a k s tr)"
  by (simp add: fire_def for_callbacks_requeue [OF assms] split: option.splits)

lemma fire_keeps_queue:
  assumes "queue_blind call" and "fire call n a k s tr = Some (res, s', tr')"
  shows "event_queue (fst s') = event_queue (fst s)"
proof -
  from fire_requeue [OF assms(1), of n a k "event_queue (fst s)" s tr] assms(2)
  have "s' = requeue (event_queue (fst s)) s'" by (simp add: requeue_same)
  then have "fst s' = fst (requeue (event_queue (fst s)) s')" by simp
  then have "event_queue (fst s') = event_queue (fst (requeue (event_queue (fst s)) s'))"
    by (rule arg_cong)
  then show ?thesis by simp
qed

lemma append_requests_queue:
  "append_requests h reqs = h\<lparr>event_queue := event_queue h @ reqs\<rparr>"
  unfolding append_requests_def
  by (induction reqs arbitrary: h) (simp_all add: append_request_def)

lemma while_event_queue_direct:
  assumes blind: "queue_blind call"
  shows "event_queue (fst s) = [] \<Longrightarrow>
     while_event_queue call ok0 (requeue reqs s) tr =
       map_option (\<lambda>run. (case fst (drained run) of Inl e \<Rightarrow> Inl e | Inr b \<Rightarrow> Inr (b \<and> ok0),
                            snd (drained run)))
         (fire_directly call reqs s tr)"
proof (induction reqs arbitrary: ok0 s tr)
  case Nil
  then show ?case
    by (subst while_event_queue.simps) (simp add: drained_def requeue_same)
next
  case (Cons req reqs)
  let ?n = "fst req" and ?a = "fst (snd req)" and ?k = "snd (snd req)"
  have unfold: "while_event_queue call ok0 (requeue (req # reqs) s) tr =
      (case fire call ?n ?a ?k (requeue reqs s) tr of
         None \<Rightarrow> None
       | Some (Inl e, s', tr') \<Rightarrow> Some (Inl e, s', tr')
       | Some (Inr ok, s', tr') \<Rightarrow> while_event_queue call (ok \<and> ok0) s' tr')"
    by (subst while_event_queue.simps) (simp add: requeue_def)
  show ?case
  proof (cases "fire call ?n ?a ?k s tr")
    case None
    with unfold fire_requeue [OF blind, of ?n ?a ?k reqs s tr] show ?thesis by simp
  next
    case (Some y)
    obtain res s1 tr1 where y: "y = (res, s1, tr1)" by (cases y) auto
    from fire_keeps_queue [OF blind Some [unfolded y]] Cons.prems
    have empty: "event_queue (fst s1) = []" by simp
    from Some y fire_requeue [OF blind, of ?n ?a ?k reqs s tr]
    have fq: "fire call ?n ?a ?k (requeue reqs s) tr = Some (res, requeue reqs s1, tr1)"
      by simp
    show ?thesis
    proof (cases res)
      case (Inl e)
      with unfold fq Some y show ?thesis by (simp add: drained_def)
    next
      case (Inr b)
      with unfold fq have "while_event_queue call ok0 (requeue (req # reqs) s) tr =
          while_event_queue call (b \<and> ok0) (requeue reqs s1) tr1" by simp
      also have "\<dots> = map_option
          (\<lambda>run. (case fst (drained run) of Inl e \<Rightarrow> Inl e | Inr c \<Rightarrow> Inr (c \<and> b \<and> ok0),
                  snd (drained run)))
          (fire_directly call reqs s1 tr1)"
        using empty by (rule Cons.IH)
      also have "\<dots> = map_option
          (\<lambda>run. (case fst (drained run) of Inl e \<Rightarrow> Inl e | Inr c \<Rightarrow> Inr (c \<and> ok0),
                  snd (drained run)))
          (fire_directly call (req # reqs) s tr)"
        using Some y Inr
        by (auto simp: drained_def split: option.splits sum.splits)
      finally show ?thesis .
    qed
  qed
qed

lemma loop_direct:
  assumes "queue_blind call" and "event_queue h = []"
  shows "loop call (append_requests h reqs, w) tr =
           map_option drained (fire_directly call reqs (h, w) tr)"
proof -
  have "(append_requests h reqs, w) = requeue reqs (h, w)"
    using assms(2) by (simp add: append_requests_queue requeue_def)
  moreover have "(case fst (drained run) of Inl e \<Rightarrow> Inl e | Inr b \<Rightarrow> Inr (b \<and> True),
                  snd (drained run)) = drained run" for run :: "(pyexc + bool list) \<times> ('a, 'b, 'c) state \<times> ('a, 'b) invocation list \<times>
     (string \<times> 'a \<times> 'b) list"
    by (cases "drained run"; cases "fst (drained run)"; simp)
  ultimately show ?thesis
    using while_event_queue_direct [OF assms(1), of "(h, w)" True reqs tr] assms(2)
    by (cases "fire_directly call reqs (h, w) tr") (simp_all add: loop_def)
qed

lemma fire_directly_returns:
  "\<forall>r. keeps_callbacks call r \<Longrightarrow> \<exists>y. fire_directly call reqs s tr = Some y"
proof (induction reqs arbitrary: s tr)
  case Nil
  show ?case by simp
next
  case (Cons req reqs)
  from fire_returns [OF Cons.prems, of "fst req" "fst (snd req)" "snd (snd req)" s tr]
  obtain res s1 tr1 where
    f: "fire call (fst req) (fst (snd req)) (snd (snd req)) s tr = Some (res, s1, tr1)"
    by (metis prod_cases3)
  show ?case
  proof (cases res)
    case (Inl e)
    with f have "fire_directly call (req # reqs) s tr = Some (Inl e, s1, tr1, reqs)"
      by simp
    then show ?thesis by blast
  next
    case (Inr b)
    from Cons.IH [OF Cons.prems, of s1 tr1] obtain res2 rest where
      "fire_directly call reqs s1 tr1 = Some (res2, rest)"
      by (metis surj_pair)
    with f Inr have "fire_directly call (req # reqs) s tr =
        Some (case res2 of Inl e \<Rightarrow> (Inl e, rest) | Inr oks \<Rightarrow> (Inr (b # oks), rest))"
      by (cases res2) simp_all
    then show ?thesis by blast
  qed
qed

lemma fire_directly_all:
  "fire_directly call reqs s tr = Some (Inr oks, s', tr', rest) \<Longrightarrow>
     rest = [] \<and> length oks = length reqs"
  by (induction reqs arbitrary: s tr oks) (auto split: option.splits sum.splits)

lemma fire_directly_keeps_queue:
  assumes "queue_blind call"
  shows "fire_directly call reqs s tr = Some (res, s', tr', rest) \<Longrightarrow>
           event_queue (fst s') = event_queue (fst s)"
proof (induction reqs arbitrary: s tr res)
  case Nil
  then show ?case by simp
next
  case (Cons req reqs)
  from Cons.prems obtain r1 s1 tr1 where
    f: "fire call (fst req) (fst (snd req)) (snd (snd req)) s tr = Some (r1, s1, tr1)"
    by (auto split: option.splits)
  note q = fire_keeps_queue [OF assms f]
  show ?case
  proof (cases r1)
    case (Inl e)
    with f Cons.prems q show ?thesis by simp
  next
    case (Inr b)
    with f Cons.prems obtain res2 where
      "fire_directly call reqs s1 tr1 = Some (res2, s', tr', rest)"
      by (auto split: option.splits sum.splits)
    from Cons.IH [OF this] q show ?thesis by simp
  qed
qed

lemma while_event_queue_empties:
  "while_event_queue call ok s tr = Some y \<Longrightarrow>
     (case fst y of Inl e \<Rightarrow> True | Inr b \<Rightarrow> event_queue (fst (fst (snd y))) = [])"
proof (induction rule: while_event_queue.raw_induct[rotated 1, consumes 1])
  case (1 loop call ok s tr y)
  show ?case
  proof (cases "event_queue (fst s)")
    case Nil
    with "1.hyps" show ?thesis by auto
  next
    case (Cons event rest)
    with "1.hyps" obtain res s' tr' where
      f: "fire call (fst event) (fst (snd event)) (snd (snd event))
            ((fst s)\<lparr>event_queue := rest\<rparr>, snd s) tr = Some (res, s', tr')"
      by (auto split: option.splits)
    show ?thesis
    proof (cases res)
      case (Inl e)
      with Cons f "1.hyps" show ?thesis by auto
    next
      case (Inr b)
      with Cons f "1.hyps" have "loop call (b \<and> ok) s' tr' = Some y" by simp
      then show ?thesis by (rule "1.IH")
    qed
  qed
qed

subsection \<open>Runs of the concrete handlers\<close>

text \<open>The concrete handlers as records, what their callbacks keep, and the runs the
  examples below use.\<close>

lemma ping_handler_eq:
  "ping_handler =
     \<lparr>events = [(''ping'', 0)], heap = (\<lambda>r. [])(0 := [recordA, recordB]), next_ref = 1,
      event_queue = [], verbose = False, tolerate_exceptions = False, stream_output = []\<rparr>"
  by (simp add: ping_handler_def new_handler_def register_event_def is_event_registered_def
      link_def recordA_def recordB_def)

lemma tolerant_ping_handler_eq:
  "tolerant_ping_handler =
     \<lparr>events = [(''ping'', 0)], heap = (\<lambda>r. [])(0 := [recordA, recordB]), next_ref = 1,
      event_queue = [], verbose = False, tolerate_exceptions = True, stream_output = []\<rparr>"
  by (simp add: tolerant_ping_handler_def new_handler_def register_event_def
      is_event_registered_def link_def recordA_def recordB_def)

lemma abc_handler_eq:
  "abc_handler =
     \<lparr>events = [(''ping'', 0)], heap = (\<lambda>r. [])(0 := [recordA, recordB, recordC]),
      next_ref = 1, event_queue = [], verbose = False, tolerate_exceptions = False,
      stream_output = []\<rparr>"
  by (simp add: abc_handler_def ping_handler_eq is_event_registered_def link_def
      recordA_def recordB_def recordC_def)

lemma ping_pong_handler_eq:
  "ping_pong_handler =
     \<lparr>events = [(''ping'', 0), (''pong'', 1)],
      heap = (\<lambda>r. [])(0 := [recordA], 1 := [recordB]), next_ref = 2,
      event_queue = [], verbose = False, tolerate_exceptions = False, stream_output = []\<rparr>"
  by (simp add: ping_pong_handler_def new_handler_def register_event_def
      is_event_registered_def link_def recordA_def recordB_def)

lemma ping_handler_fields:
  "events ping_handler = [(''ping'', 0)]" "heap ping_handler 0 = [recordA, recordB]"
  "tolerate_exceptions ping_handler = False"
  by (simp_all add: ping_handler_eq)



lemma init_verbose_ping:
  "init [''ping''] True False ''0x7f'' =
     Inr (\<lparr>events = [(''ping'', 0)], heap = (\<lambda>r. []), next_ref = 1,
      event_queue = [], verbose = True, tolerate_exceptions = False,
      stream_output = [Line (''<class EventHandler at 0x7f: ping:[], verbose=True, '' @
                             ''tolerate_exceptions=False> has been init.'')]\<rparr>
          :: (string, unit) EventHandler)"
  by (simp add: init_def new_handler_def register_event_def is_event_registered_def
      str_handler_def str_bool_def print_to_def fun_upd_idem)

lemma callbacks_keep_recording: "callbacks_keep recording I"
  by (simp add: callbacks_keep_def recording_def split: sum.splits)


lemma keeps_callbacks_recording: "keeps_callbacks recording r"
  by (simp add: keeps_callbacks_def recording_def split: sum.splits)

lemma keeps_all_callbacks_recording: "\<forall>r. keeps_callbacks recording r"
  by (simp add: keeps_callbacks_recording)

lemma keeps_tolerance_recording: "keeps_tolerance recording"
  by (simp add: keeps_tolerance_def recording_def split: sum.splits)

lemma keeps_callbacks_raising: "keeps_callbacks (raising e) r"
  by (simp add: keeps_callbacks_def raising_def recording_def split: sum.splits)

lemma keeps_tolerance_raising: "keeps_tolerance (raising e)"
  by (simp add: keeps_tolerance_def raising_def recording_def split: sum.splits)

lemma queue_blind_recording: "queue_blind recording"
  by (simp add: queue_blind_def recording_def requeue_def split: sum.splits)

lemma queue_blind_raising: "queue_blind (raising e)"
  by (simp add: queue_blind_def raising_def recording_def requeue_def split: sum.splits)

lemma fire_ping_recording:
  "fire recording ''ping'' a () (ping_handler, w) tr =
     Some (Inr True, (ping_handler, w @ [''recordA:'' @ a, ''recordB:'' @ a]),
       tr @ [Invocation recordA a () None, Invocation recordB a () None])"
  by (simp add: fire_def for_callbacks.simps ping_handler_eq try_callback_def recording_def
      invocation_of_def recordA_def recordB_def)

lemma fire_ping_raising:
  "fire (raising boom) ''ping'' a () (ping_handler, w) tr =
     Some (Inl boom, (ping_handler, w), tr @ [Invocation recordA a () (Some boom)])"
  by (simp add: fire_def for_callbacks.simps ping_handler_eq try_callback_def raising_def
      recording_def invocation_of_def recordA_def recordB_def boom_def)



lemma fire_self_unlinking:
  "fire self_unlinking ''ping'' ''x'' () (h, []) [] =
     Some (Inr True, (h\<lparr>heap := (\<lambda>r. [])(0 := [recordB])\<rparr>, [''recordA:x'']),
       [Invocation recordA ''x'' () None])"
  if "h = ping_handler \<or> h = tolerant_ping_handler"
  using that
  by (auto simp: fire_def for_callbacks.simps ping_handler_eq tolerant_ping_handler_eq
      try_callback_def self_unlinking_def unlink_def is_event_registered_def
      recording_def invocation_of_def recordA_def recordB_def)

lemma fire_abc_unlinking_raising:
  "fire unlinking_raising ''ping'' ''x'' () (abc_handler, []) [] =
     Some (Inr True,
       (abc_handler\<lparr>heap := (\<lambda>r. [])(0 := [recordB, recordC])\<rparr>, [''recordA:x'', ''recordC:x'']),
       [Invocation recordA ''x'' () None, Invocation recordC ''x'' () None])"
  by (simp add: fire_def for_callbacks.simps abc_handler_eq try_callback_def
      unlinking_raising_def self_unlinking_def unlink_def is_event_registered_def
      recording_def invocation_of_def recordA_def recordB_def recordC_def boom_def)

lemma keeps_tolerance_unlinking_then_raising: "keeps_tolerance unlinking_then_raising"
  by (simp add: keeps_tolerance_def unlinking_then_raising_def unlink_def recording_def
      split: sum.splits option.splits)

lemma unlinking_then_raising_recordA:
  "unlinking_then_raising recordA ''x'' () (ping_handler, []) =
     (Some boom, (ping_handler\<lparr>heap := (\<lambda>r. [])(0 := [recordB])\<rparr>, []))"
  by (simp add: unlinking_then_raising_def unlink_def is_event_registered_def ping_handler_eq
      recordA_def recordB_def)

lemma fire_unlinking_then_raising:
  "fire unlinking_then_raising ''ping'' ''x'' () (ping_handler, []) [] =
     Some (Inl boom, (ping_handler\<lparr>heap := (\<lambda>r. [])(0 := [recordB])\<rparr>, []),
       [Invocation recordA ''x'' () (Some boom)])"
  by (simp add: fire_def for_callbacks.simps ping_handler_eq try_callback_def
      unlinking_then_raising_def unlink_def is_event_registered_def
      invocation_of_def recordA_def recordB_def boom_def)

lemma passes_ping_recording:
  "passes recording 0 ''x'' () (ping_handler, []) [] (Suc (Suc 0)) =
     Some (True, (ping_handler, [''recordA:x'', ''recordB:x'']),
       [Invocation recordA ''x'' () None, Invocation recordB ''x'' () None])"
  by (simp add: ping_handler_eq try_callback_def recording_def invocation_of_def
      recordA_def recordB_def)


lemma verbose_handler_eq:
  "verbose_handler =
     \<lparr>events = [(''ping'', 0)], heap = (\<lambda>r. [])(0 := [bound_partial]), next_ref = 1,
      event_queue = [], verbose = True, tolerate_exceptions = False,
      stream_output = [Line (''<class EventHandler at 0x7f: ping:[], verbose=True, '' @
                             ''tolerate_exceptions=False> has been init.'')]\<rparr>"
  by (simp add: verbose_handler_def init_verbose_ping link_def is_event_registered_def
      bound_partial_def)

lemma loop_enqueuing:
  "loop enqueuing (append_request ping_pong_handler ''ping'' ''x'' (), []) [] =
     Some (Inr True, (ping_pong_handler, [''recordA:x'', ''recordB:x'']),
       [Invocation recordA ''x'' () None, Invocation recordB ''x'' () None])"
  by (simp add: ping_pong_handler_eq loop_def while_event_queue.simps fire_def
      for_callbacks.simps try_callback_def enqueuing_def recording_def append_request_def
      invocation_of_def recordA_def recordB_def)

subsection \<open>Registering\<close>

text \<open>
  C7. For an event name that is already registered, \<open>register_event\<close> returns False and
  changes nothing of the registry: the dict, the list objects, the callback sequence of
  every event and the event count stay as they were (only the diagnostic may be printed).
  For a name that is not registered it returns True, the name is registered afterwards
  with an empty callback sequence, and there is one event more; when every reference of
  the registry has been allocated, the callback sequences of the other events are
  untouched.
\<close>

theorem register_event_idempotent:
  "(is_event_registered h n \<longrightarrow>
      fst (register_event h n) = False \<and>
      snd (register_event h n) =
        print_if_verbose h
          (''Omiting event '' @ n @ '' registration, already implemented'') \<and>
      events (snd (register_event h n)) = events h \<and>
      heap (snd (register_event h n)) = heap h \<and>
      callbacks_of (snd (register_event h n)) = callbacks_of h \<and>
      count_events (snd (register_event h n)) = count_events h) \<and>
   (\<not> is_event_registered h n \<longrightarrow>
      fst (register_event h n) = True \<and>
      is_event_registered (snd (register_event h n)) n \<and>
      callbacks_of (snd (register_event h n)) n = Some [] \<and>
      count_events (snd (register_event h n)) = Suc (count_events h) \<and>
      (refs_allocated h \<longrightarrow>
         callbacks_of (snd (register_event h n)) = (callbacks_of h)(n \<mapsto> [])))"
proof (intro conjI impI)
  assume reg: "is_event_registered h n"
  then show "fst (register_event h n) = False"
    and "snd (register_event h n) =
        print_if_verbose h
          (''Omiting event '' @ n @ '' registration, already implemented'')"
    and "events (snd (register_event h n)) = events h"
    and "heap (snd (register_event h n)) = heap h"
    and "count_events (snd (register_event h n)) = count_events h"
    by (simp_all add: register_event_def count_events_def event_list_def)
  from reg show "callbacks_of (snd (register_event h n)) = callbacks_of h"
    by (intro callbacks_of_cong) (simp_all add: register_event_def)
next
  assume new: "\<not> is_event_registered h n"
  then show "fst (register_event h n) = True"
    and "is_event_registered (snd (register_event h n)) n"
    and "callbacks_of (snd (register_event h n)) n = Some []"
    by (simp_all add: register_event_def is_event_registered_def callbacks_of_def update_conv')
  from new show "count_events (snd (register_event h n)) = Suc (count_events h)"
    by (simp add: register_event_def is_event_registered_def count_events_def event_list_def
        length_update_fresh)
  assume "refs_allocated h"
  then have fresh: "map_of (events h) m = Some r \<Longrightarrow> r \<noteq> next_ref h" for m r
    by (auto simp: refs_allocated_def list_all_iff dest!: map_of_SomeD)
  show "callbacks_of (snd (register_event h n)) = (callbacks_of h)(n \<mapsto> [])"
  proof
    fix m
    show "callbacks_of (snd (register_event h n)) m = ((callbacks_of h)(n \<mapsto> [])) m"
      using new fresh [of m]
      by (cases "map_of (events h) m")
         (auto simp: register_event_def callbacks_of_def update_conv')
  qed
qed

theorem register_event_idempotent_witness:
  "is_event_registered ping_handler ''ping'' \<and>
   register_event ping_handler ''ping'' = (False, ping_handler) \<and>
   count_events (snd (register_event ping_handler ''ping'')) = 1 \<and>
   \<not> is_event_registered ping_handler ''pong'' \<and> refs_allocated ping_handler \<and>
   fst (register_event ping_handler ''pong'') = True \<and>
   callbacks_of (snd (register_event ping_handler ''pong'')) ''pong'' = Some [] \<and>
   callbacks_of (snd (register_event ping_handler ''pong'')) ''ping'' = Some [recordA, recordB] \<and>
   count_events (snd (register_event ping_handler ''pong'')) = 2"
  using register_event_idempotent [of ping_handler "''ping''"]
    register_event_idempotent [of ping_handler "''pong''"]
  by (simp add: ping_handler_eq is_event_registered_def refs_allocated_def register_event_def
      print_if_verbose_def callbacks_of_def count_events_def event_list_def)

subsection \<open>Linking a value that is not callable\<close>

text \<open>
  C9. For a value that \<open>is_callable\<close> rejects and any event name, registered or not,
  \<open>link\<close> returns False without raising; the handler is left as it was but for the
  diagnostic printed when verbose: dict, list objects, queue and the callback sequence
  of every event are unchanged. The check comes before the registration check.
\<close>

theorem link_not_callable:
  "\<not> is_callable cb \<Longrightarrow>
     fst (link h cb n) = Inr False \<and>
     snd (link h cb n) =
       print_if_verbose h (''Callback not registered. Type '' @ type_repr cb @
                           '' is not a callable function.'') \<and>
     events (snd (link h cb n)) = events h \<and>
     heap (snd (link h cb n)) = heap h \<and>
     next_ref (snd (link h cb n)) = next_ref h \<and>
     event_queue (snd (link h cb n)) = event_queue h \<and>
     callbacks_of (snd (link h cb n)) = callbacks_of h"
  by (auto simp: link_def intro!: callbacks_of_cong)

theorem link_not_callable_witness:
  "\<not> is_callable seven \<and>
   \<not> is_event_registered ping_handler ''pong'' \<and>
   link ping_handler seven ''pong'' = (Inr False, ping_handler) \<and>
   link ping_handler seven ''ping'' = (Inr False, ping_handler) \<and>
   link (ping_handler\<lparr>verbose := True\<rparr>) seven ''pong'' =
     (Inr False, ping_handler\<lparr>verbose := True, stream_output :=
        [Line (''Callback not registered. Type <class '' @ [apostrophe] @ ''int'' @
               [apostrophe] @ ''> is not a callable function.'')]\<rparr>)"
  using link_not_callable [of seven ping_handler "''pong''"]
    link_not_callable [of seven ping_handler "''ping''"]
    link_not_callable [of seven "ping_handler\<lparr>verbose := True\<rparr>" "''pong''"]
  by (simp add: ping_handler_eq is_event_registered_def link_def print_if_verbose_def
      print_to_def seven_def)

subsection \<open>Asking for a callback of an unknown event\<close>

text \<open>
  C10. For an event name that is not registered and any callback,
  \<open>is_callback_in_event\<close> raises the \<open>KeyError\<close> of the dict lookup: it neither returns
  False nor raises \<open>EventNotAllowedError\<close>, while \<open>is_event_registered\<close> answers False
  for the same name.
\<close>

theorem is_callback_in_event_unregistered:
  "\<not> is_event_registered h n \<Longrightarrow>
     is_callback_in_event h n cb = Inl (KeyError n) \<and>
     \<not> raises_EventNotAllowedError (is_callback_in_event h n cb)"
  by (simp add: is_callback_in_event_def is_event_registered_def)

theorem is_callback_in_event_unregistered_witness:
  "\<not> is_event_registered ping_handler ''pong'' \<and>
   is_callback_in_event ping_handler ''pong'' recordA = Inl (KeyError ''pong'') \<and>
   is_event_registered ping_handler ''pong'' = False"
  using is_callback_in_event_unregistered [of ping_handler "''pong''" recordA]
  by (simp add: ping_handler_eq is_event_registered_def)

subsection \<open>Unlinking from an unknown event\<close>

text \<open>
  C2, as the code has it. For an event name that is not registered and any callback,
  \<open>unlink\<close> does not raise: it returns False and leaves the registry as it was (dict,
  list objects, queue, the callback sequence of every event); what it did is only
  printed. \<open>link\<close> is the one that raises \<open>EventNotAllowedError\<close> there, for a callable
  callback. That \<open>unlink\<close> raises the same fails on the scenario's handler and the
  unregistered name \<open>pong\<close>.
\<close>

theorem unlink_unregistered:
  "\<not> is_event_registered h n \<Longrightarrow>
     fst (unlink h cb n) = Inr False \<and>
     events (snd (unlink h cb n)) = events h \<and>
     heap (snd (unlink h cb n)) = heap h \<and>
     next_ref (snd (unlink h cb n)) = next_ref h \<and>
     event_queue (snd (unlink h cb n)) = event_queue h \<and>
     callbacks_of (snd (unlink h cb n)) = callbacks_of h \<and>
     (is_callable cb \<longrightarrow> raises_EventNotAllowedError (fst (link h cb n)))"
  by (auto simp: unlink_def link_def intro!: callbacks_of_cong)

theorem unlink_unregistered_counterexample:
  "\<not> is_event_registered ping_handler ''pong'' \<and>
   fst (unlink ping_handler recordA ''pong'') = Inr False \<and>
   \<not> raises_EventNotAllowedError (fst (unlink ping_handler recordA ''pong''))"
  by (simp add: ping_handler_eq is_event_registered_def unlink_def)

theorem unlink_unregistered_witness:
  "\<not> is_event_registered ping_handler ''pong'' \<and>
   fst (unlink ping_handler recordA ''pong'') = Inr False \<and>
   events (snd (unlink ping_handler recordA ''pong'')) = [(''ping'', 0)] \<and>
   callbacks_of (snd (unlink ping_handler recordA ''pong'')) ''ping'' = Some [recordA, recordB] \<and>
   callbacks_of (snd (unlink ping_handler recordA ''pong'')) ''pong'' = None \<and>
   is_callable recordA \<and>
   raises_EventNotAllowedError (fst (link ping_handler recordA ''pong''))"
  using unlink_unregistered [of ping_handler "''pong''" recordA]
  by (simp add: ping_handler_eq is_event_registered_def callbacks_of_def recordA_def)

subsection \<open>Firing an unknown event\<close>

text \<open>
  C1, as the code has it. For an event name that is not registered, and so for every
  name after \<open>clear_events\<close>, \<open>fire\<close> raises the \<open>KeyError\<close> of the dict lookup
  \<^verbatim>\<open>self.__events[event_name]\<close>; no callback is invoked and the state is left as it
  was. The error is not \<open>EventNotAllowedError\<close>, which only \<open>link\<close> raises: firing
  \<open>ping\<close> after \<open>clear_events\<close> on the scenario's handler shows it.
\<close>

theorem fire_unregistered:
  "(\<not> is_event_registered h n \<longrightarrow>
      fire call n a k (h, w) tr = Some (Inl (KeyError n), (h, w), tr)) \<and>
   fire call n a k (snd (clear_events h), w) tr =
     Some (Inl (KeyError n), (snd (clear_events h), w), tr)"
  by (simp add: fire_def is_event_registered_def clear_events_def)

theorem fire_unregistered_witness:
  "is_event_registered ping_handler ''ping'' \<and>
   \<not> is_event_registered (snd (clear_events ping_handler)) ''ping'' \<and>
   \<not> is_event_registered ping_handler ''pong'' \<and>
   fire recording ''pong'' ''x'' () (ping_handler, []) [] =
     Some (Inl (KeyError ''pong''), (ping_handler, []), []) \<and>
   fire recording ''ping'' ''x'' () (snd (clear_events ping_handler), []) [] =
     Some (Inl (KeyError ''ping''), (snd (clear_events ping_handler), []), [])"
  using fire_unregistered [of ping_handler "''pong''" recording "''x''" "()" "[]" "[]"]
    fire_unregistered [of ping_handler "''ping''" recording "''x''" "()" "[]" "[]"]
  by (simp add: ping_handler_eq is_event_registered_def clear_events_def)

theorem fire_unregistered_counterexample:
  "\<not> is_event_registered (snd (clear_events ping_handler)) ''ping'' \<and>
   fire recording ''ping'' ''x'' () (snd (clear_events ping_handler), []) [] =
     Some (Inl (KeyError ''ping''), (snd (clear_events ping_handler), []), []) \<and>
   \<not> raises_EventNotAllowedError
      (fst (the (fire recording ''ping'' ''x'' () (snd (clear_events ping_handler), []) [])))"
  by (simp add: fire_def is_event_registered_def clear_events_def)

subsection \<open>Linking a callback twice\<close>

text \<open>
  C8, where the code departs from it. \<open>link\<close> of a callback that is already in the
  sequence of a registered event never changes a callback sequence, and no operation
  ever puts a callback twice into one (lemma \<open>link_again\<close> above). But \<open>link\<close> does
  not always return False there: on
  a verbose handler it reads \<^verbatim>\<open>callback.__name__\<close> for its diagnostic before it
  returns, and a callable need not have that attribute. On the handler constructed
  with \<^verbatim>\<open>verbose=True\<close> and the event \<open>ping\<close>, the first \<open>link\<close> of a bound
  method over a \<^verbatim>\<open>functools.partial\<close> returns True and the second raises
  \<^verbatim>\<open>AttributeError\<close>; the sequence is left as it was. The same second \<open>link\<close> on
  the handler with \<open>verbose\<close> off returns False.
\<close>

theorem link_twice_raises:
  "is_callable bound_partial \<and>
   fst (link (projr (init [''ping''] True False ''0x7f'') :: (string, unit) EventHandler)
         bound_partial ''ping'') = Inr True \<and>
   verbose verbose_handler \<and>
   callbacks_of verbose_handler ''ping'' = Some [bound_partial] \<and>
   link verbose_handler bound_partial ''ping'' =
     (Inl (AttributeError
        ([apostrophe] @ ''functools.partial'' @ [apostrophe] @ '' object has no attribute '' @
         [apostrophe] @ ''__name__'' @ [apostrophe])), verbose_handler) \<and>
   link (verbose_handler\<lparr>verbose := False\<rparr>) bound_partial ''ping'' =
     (Inr False, verbose_handler\<lparr>verbose := False\<rparr>)"
  by (simp add: verbose_handler_eq init_verbose_ping)
     (simp add: link_def is_event_registered_def callbacks_of_def bound_partial_def)

subsection \<open>Order and arguments of the calls\<close>

text \<open>
  C5, as the code has it. On a registered event, whatever the callbacks do, every call
  made by a \<open>fire\<close> that ends got the positional and keyword arguments given to
  \<open>fire\<close>; when that \<open>fire\<close> raises, its last call raised; when it returns a value,
  it made no fewer calls than the list has callbacks by then. The order is that of the
  registration only while the list is left alone: \<open>fire\<close> iterates the live list
  object of the event. Provided no callback changes that list while \<open>fire\<close> runs,
  \<open>fire\<close> ends, and the calls it made are, in order, a prefix of the event's callback
  sequence: the whole sequence unless the last call raised. Without the proviso the
  statement fails: when \<open>recordA\<close> unlinks itself while it runs, \<open>fire\<close> on
  \<open>[recordA, recordB]\<close> returns True and \<open>recordB\<close>, linked before and after, was
  never called.
\<close>

theorem fire_order:
  assumes "map_of (events h) n = Some r"
  shows "(\<forall>res s' tr'. fire call n a k (h, w) tr = Some (res, s', tr') \<longrightarrow>
           (\<exists>new. tr' = tr @ new \<and> (\<forall>c \<in> set new. pos_args c = a \<and> kw_args c = k) \<and>
              (case res of
                 Inl e \<Rightarrow> new \<noteq> [] \<and> raised (last new) \<noteq> None
               | Inr b \<Rightarrow> length (heap (fst s') r) \<le> length new))) \<and>
         (keeps_callbacks call r \<longrightarrow>
           (\<exists>res s' new. fire call n a k (h, w) tr = Some (res, s', tr @ new) \<and>
              prefix (map callee new) (heap h r) \<and>
              (\<forall>c \<in> set new. pos_args c = a \<and> kw_args c = k) \<and>
              (case res of
                 Inl e \<Rightarrow> new \<noteq> [] \<and> raised (last new) \<noteq> None
               | Inr b \<Rightarrow> map callee new = heap h r)))"
proof (intro conjI allI impI)
  fix res s' tr'
  assume run: "fire call n a k (h, w) tr = Some (res, s', tr')"
  from fire_run [OF run _ callbacks_keep_True, of r] assms obtain cbs where
    "dispatch_snapshot call cbs a k True (h, w) tr = (res, s', tr')"
    by (auto simp: list_all_iff)
  with dispatch_order [of call cbs a k True "(h, w)" tr] obtain new where
    new: "tr' = tr @ new" "\<forall>c \<in> set new. pos_args c = a \<and> kw_args c = k"
      "case res of Inl e \<Rightarrow> new \<noteq> [] \<and> raised (last new) \<noteq> None | Inr b \<Rightarrow> map callee new = cbs"
    by auto
  have "length (heap (fst s') r) \<le> length new" if "res = Inr b" for b
    using run that new(1) assms fire_through [of call n a k "(h, w)" tr b s' new r] by simp
  with new show "\<exists>new. tr' = tr @ new \<and> (\<forall>c \<in> set new. pos_args c = a \<and> kw_args c = k) \<and>
              (case res of
                 Inl e \<Rightarrow> new \<noteq> [] \<and> raised (last new) \<noteq> None
               | Inr b \<Rightarrow> length (heap (fst s') r) \<le> length new)"
    by (intro exI [of _ new]) (simp split: sum.splits)
next
  assume "keeps_callbacks call r"
  with fire_snapshot [of call r "(h, w)" n a k tr] assms
    dispatch_order [of call "heap h r" a k True "(h, w)" tr]
  show "\<exists>res s' new. fire call n a k (h, w) tr = Some (res, s', tr @ new) \<and>
         prefix (map callee new) (heap h r) \<and>
         (\<forall>c \<in> set new. pos_args c = a \<and> kw_args c = k) \<and>
         (case res of
            Inl e \<Rightarrow> new \<noteq> [] \<and> raised (last new) \<noteq> None
          | Inr b \<Rightarrow> map callee new = heap h r)"
    by auto
qed

theorem fire_order_witness:
  "map_of (events ping_handler) ''ping'' = Some 0 \<and> keeps_callbacks recording 0 \<and>
   heap ping_handler 0 = [recordA, recordB] \<and>
   fire recording ''ping'' ''x'' () (ping_handler, []) [] =
     Some (Inr True, (ping_handler, [''recordA:x'', ''recordB:x'']),
       [Invocation recordA ''x'' () None, Invocation recordB ''x'' () None]) \<and>
   keeps_callbacks (raising boom) 0 \<and>
   fire (raising boom) ''ping'' ''x'' () (ping_handler, []) [] =
     Some (Inl boom, (ping_handler, []), [Invocation recordA ''x'' () (Some boom)])"
  using fire_order [of ping_handler "''ping''" 0 recording "''x''" "()" "[]" "[]"]
    fire_order [of ping_handler "''ping''" 0 "raising boom" "''x''" "()" "[]" "[]"]
  by (simp add: keeps_callbacks_recording keeps_callbacks_raising fire_ping_recording
      fire_ping_raising)
     (simp add: ping_handler_eq)

theorem fire_order_counterexample:
  "callbacks_of ping_handler ''ping'' = Some [recordA, recordB] \<and>
   fire self_unlinking ''ping'' ''x'' () (ping_handler, []) [] =
     Some (Inr True,
       (ping_handler\<lparr>heap := (\<lambda>r. [])(0 := [recordB])\<rparr>, [''recordA:x'']),
       [Invocation recordA ''x'' () None]) \<and>
   callbacks_of (ping_handler\<lparr>heap := (\<lambda>r. [])(0 := [recordB])\<rparr>) ''ping'' = Some [recordB]"
  by (simp add: fire_self_unlinking) (simp add: ping_handler_eq callbacks_of_def)

subsection \<open>Strict mode\<close>

text \<open>
  C3, as the code has it. With tolerance disabled and left so by the callbacks, on a
  registered event, whatever else the callbacks do. As long as the calls return,
  \<open>fire\<close> goes on through the list object, pass \<open>j\<close> calling the callback at index
  \<open>j\<close> of the list as it is by then. When the call of a pass raises, \<open>fire\<close> ends
  there and raises the same exception: that call is its last. When the list is
  exhausted, \<open>fire\<close> ends and returns True. So in a \<open>fire\<close> that ends no call but the
  last one raised, and \<open>fire\<close> raises what the last call raised, or returns True when
  no call raised. That the callbacks called are those of the event's sequence, in
  order, up to and including the first of the sequence that raises, needs that no
  callback changes the list object while \<open>fire\<close> runs; then \<open>fire\<close> always ends.
  Without the proviso the statement fails: on \<open>[recordA, recordB, recordC]\<close>, where
  \<open>recordA\<close> unlinks itself and \<open>recordB\<close> is the first callback that raises,
  \<open>fire\<close> skips \<open>recordB\<close>, calls \<open>recordC\<close> and returns True.
\<close>

theorem fire_strict:
  assumes "keeps_tolerance call" and "\<not> tolerate_exceptions h"
    and "map_of (events h) n = Some r"
  shows "(\<forall>j ok s1 tr1. passes call r a k (h, w) tr j = Some (ok, s1, tr1) \<longrightarrow>
           (\<exists>new. tr1 = tr @ new \<and> length new = j \<and> (\<forall>c \<in> set new. raised c = None)) \<and>
           (\<forall>e. j < length (heap (fst s1) r) \<and>
                fst (call (heap (fst s1) r ! j) a k s1) = Some e \<longrightarrow>
              fire call n a k (h, w) tr =
                Some (Inl e, snd (call (heap (fst s1) r ! j) a k s1),
                      tr1 @ [Invocation (heap (fst s1) r ! j) a k (Some e)])) \<and>
           (length (heap (fst s1) r) \<le> j \<longrightarrow>
              fire call n a k (h, w) tr = Some (Inr True, s1, tr1))) \<and>
         (\<forall>res s' tr'. fire call n a k (h, w) tr = Some (res, s', tr') \<longrightarrow>
           (\<exists>new. tr' = tr @ new \<and> (\<forall>c \<in> set (butlast new). raised c = None) \<and>
              (case res of
                 Inl e \<Rightarrow> new \<noteq> [] \<and> raised (last new) = Some e
               | Inr b \<Rightarrow> b \<and> (\<forall>c \<in> set new. raised c = None)))) \<and>
         (keeps_callbacks call r \<longrightarrow>
           (\<exists>res s' new. fire call n a k (h, w) tr = Some (res, s', tr @ new) \<and>
              prefix (map callee new) (heap h r) \<and>
              (\<forall>c \<in> set (butlast new). raised c = None) \<and>
              (case res of
                 Inl e \<Rightarrow> new \<noteq> [] \<and> raised (last new) = Some e
               | Inr b \<Rightarrow> b \<and> map callee new = heap h r \<and>
                          (\<forall>c \<in> set new. raised c = None))))"
proof (intro conjI allI impI)
  fix j ok s1 tr1
  assume p: "passes call r a k (h, w) tr j = Some (ok, s1, tr1)"
  from passes_strict [OF assms(1) _ p] assms(2)
  show returned: "\<exists>new. tr1 = tr @ new \<and> length new = j \<and> (\<forall>c \<in> set new. raised c = None)"
    by simp
  {
    fix e
    let ?cb = "heap (fst s1) r ! j"
    assume raise: "j < length (heap (fst s1) r) \<and> fst (call ?cb a k s1) = Some e"
    from passes_tolerance [OF assms(1) p] assms(2) have "\<not> tolerate_exceptions (fst s1)"
      by simp
    moreover from assms(1)
    have "tolerate_exceptions (fst (snd (call ?cb a k s1))) = tolerate_exceptions (fst s1)"
      unfolding keeps_tolerance_def by blast
    ultimately have "\<not> tolerate_exceptions (fst (snd (call ?cb a k s1)))" by simp
    with passes_raises [OF p, of n e] raise assms(3)
    show "fire call n a k (h, w) tr =
        Some (Inl e, snd (call ?cb a k s1), tr1 @ [Invocation ?cb a k (Some e)])"
      by simp
  }
  assume "length (heap (fst s1) r) \<le> j"
  with passes_ends [OF p, of n] assms(3)
  have "fire call n a k (h, w) tr = Some (Inr ok, s1, tr1)" by simp
  moreover from passes_history [OF p] returned have ok by auto
  ultimately show "fire call n a k (h, w) tr = Some (Inr True, s1, tr1)" by simp
next
  fix res s' tr'
  assume run: "fire call n a k (h, w) tr = Some (res, s', tr')"
  from fire_run [OF run _ callbacks_keep_True, of r] assms(3) obtain cbs where
    d: "dispatch_snapshot call cbs a k True (h, w) tr = (res, s', tr')"
    by (auto simp: list_all_iff)
  from assms(1,2) dispatch_strict [of call "(h, w)" cbs a k True tr] d
  obtain new where "tr' = tr @ new" "\<forall>c \<in> set (butlast new). raised c = None"
    "case res of
        Inl e \<Rightarrow> new \<noteq> [] \<and> raised (last new) = Some e
      | Inr b \<Rightarrow> b = True \<and> map callee new = cbs \<and> (\<forall>c \<in> set new. raised c = None)"
    by auto
  then show "\<exists>new. tr' = tr @ new \<and> (\<forall>c \<in> set (butlast new). raised c = None) \<and>
              (case res of
                 Inl e \<Rightarrow> new \<noteq> [] \<and> raised (last new) = Some e
               | Inr b \<Rightarrow> b \<and> (\<forall>c \<in> set new. raised c = None))"
    by (intro exI [of _ new]) (simp split: sum.splits)
next
  assume keeps: "keeps_callbacks call r"
  from assms(1,2) dispatch_strict [of call "(h, w)" "heap h r" a k True tr]
  obtain res s' new where
    "dispatch_snapshot call (heap h r) a k True (h, w) tr = (res, s', tr @ new)"
    "prefix (map callee new) (heap h r)"
    "\<forall>c \<in> set (butlast new). raised c = None"
    "case res of
        Inl e \<Rightarrow> new \<noteq> [] \<and> raised (last new) = Some e
      | Inr b \<Rightarrow> b = True \<and> map callee new = heap h r \<and> (\<forall>c \<in> set new. raised c = None)"
    by auto
  with fire_snapshot [of call r "(h, w)" n a k tr] keeps assms(3)
  show "\<exists>res s' new. fire call n a k (h, w) tr = Some (res, s', tr @ new) \<and>
              prefix (map callee new) (heap h r) \<and>
              (\<forall>c \<in> set (butlast new). raised c = None) \<and>
              (case res of
                 Inl e \<Rightarrow> new \<noteq> [] \<and> raised (last new) = Some e
               | Inr b \<Rightarrow> b \<and> map callee new = heap h r \<and>
                          (\<forall>c \<in> set new. raised c = None))"
    by - (rule exI [of _ res], rule exI [of _ s'], rule exI [of _ new],
          simp split: sum.splits)
qed

theorem fire_strict_witness:
  "\<not> tolerate_exceptions ping_handler \<and> map_of (events ping_handler) ''ping'' = Some 0 \<and>
   heap ping_handler 0 = [recordA, recordB] \<and>
   keeps_tolerance unlinking_then_raising \<and>
   passes unlinking_then_raising 0 ''x'' () (ping_handler, []) [] 0 =
     Some (True, (ping_handler, []), []) \<and>
   unlinking_then_raising recordA ''x'' () (ping_handler, []) =
     (Some boom, (ping_handler\<lparr>heap := (\<lambda>r. [])(0 := [recordB])\<rparr>, [])) \<and>
   fire unlinking_then_raising ''ping'' ''x'' () (ping_handler, []) [] =
     Some (Inl boom, (ping_handler\<lparr>heap := (\<lambda>r. [])(0 := [recordB])\<rparr>, []),
       [Invocation recordA ''x'' () (Some boom)]) \<and>
   keeps_tolerance recording \<and>
   passes recording 0 ''x'' () (ping_handler, []) [] (Suc (Suc 0)) =
     Some (True, (ping_handler, [''recordA:x'', ''recordB:x'']),
       [Invocation recordA ''x'' () None, Invocation recordB ''x'' () None]) \<and>
   fire recording ''ping'' ''x'' () (ping_handler, []) [] =
     Some (Inr True, (ping_handler, [''recordA:x'', ''recordB:x'']),
       [Invocation recordA ''x'' () None, Invocation recordB ''x'' () None]) \<and>
   keeps_tolerance (raising boom) \<and> keeps_callbacks (raising boom) 0 \<and>
   fire (raising boom) ''ping'' ''x'' () (ping_handler, []) [] =
     Some (Inl boom, (ping_handler, []), [Invocation recordA ''x'' () (Some boom)])"
  using
    fire_strict [of unlinking_then_raising ping_handler "''ping''" 0 "''x''" "()" "[]" "[]"]
    fire_strict [of recording ping_handler "''ping''" 0 "''x''" "()" "[]" "[]"]
    fire_strict [of "raising boom" ping_handler "''ping''" 0 "''x''" "()" "[]" "[]"]
  by (simp add: keeps_callbacks_raising keeps_tolerance_raising keeps_tolerance_recording
      keeps_tolerance_unlinking_then_raising fire_ping_raising fire_ping_recording
      fire_unlinking_then_raising passes_ping_recording ping_handler_fields
      unlinking_then_raising_recordA del: passes.simps(2))

theorem fire_strict_counterexample:
  "\<not> tolerate_exceptions abc_handler \<and>
   callbacks_of abc_handler ''ping'' = Some [recordA, recordB, recordC] \<and>
   fst (unlinking_raising recordA ''x'' () (abc_handler, [])) = None \<and>
   fst (unlinking_raising recordB ''x'' ()
         (snd (unlinking_raising recordA ''x'' () (abc_handler, [])))) = Some boom \<and>
   fire unlinking_raising ''ping'' ''x'' () (abc_handler, []) [] =
     Some (Inr True,
       (abc_handler\<lparr>heap := (\<lambda>r. [])(0 := [recordB, recordC])\<rparr>, [''recordA:x'', ''recordC:x'']),
       [Invocation recordA ''x'' () None, Invocation recordC ''x'' () None])"
  by (simp add: fire_abc_unlinking_raising)
     (simp add: abc_handler_eq callbacks_of_def unlinking_raising_def self_unlinking_def
        recordA_def recordB_def)

subsection \<open>Tolerant mode\<close>




subsection \<open>Appending and draining\<close>

text \<open>
  C6, as the code has it. A \<open>loop\<close> that returns a value leaves the queue empty,
  whatever the callbacks do. Provided the callbacks neither read nor change the
  deferred queue: after any sequence of \<open>append\<close> calls on a handler whose queue was
  empty, \<open>loop\<close> does exactly what calling \<open>fire\<close> directly does, request by request
  in the order of the appends, up to the first \<open>fire\<close> that raises: same calls in the
  same order, same final state. When every \<open>fire\<close> returns, \<open>loop\<close> returns the
  conjunction of their results; when one raises, \<open>loop\<close> raises the same and the
  requests not reached stay in the queue. \<open>loop\<close> ends whenever no callback changes a
  list object of the registry. Without the proviso the statement fails: when
  \<open>recordA\<close> enqueues a \<open>pong\<close> request while it runs, \<open>append\<close> and \<open>loop\<close> also
  call \<open>recordB\<close>, which the direct \<open>fire\<close> does not.
\<close>

theorem loop_fires_in_order:
  "(\<forall>b s' tr'. loop call (h, w) tr = Some (Inr b, s', tr') \<longrightarrow> event_queue (fst s') = []) \<and>
   (queue_blind call \<and> event_queue h = [] \<longrightarrow>
      loop call (append_requests h reqs, w) tr =
        map_option drained (fire_directly call reqs (h, w) tr) \<and>
      (\<forall>oks s' tr' rest.
         fire_directly call reqs (h, w) tr = Some (Inr oks, s', tr', rest) \<longrightarrow>
           loop call (append_requests h reqs, w) tr = Some (Inr (list_all id oks), s', tr') \<and>
           length oks = length reqs \<and> event_queue (fst s') = []) \<and>
      (\<forall>e s' tr' rest.
         fire_directly call reqs (h, w) tr = Some (Inl e, s', tr', rest) \<longrightarrow>
           loop call (append_requests h reqs, w) tr = Some (Inl e, requeue rest s', tr')) \<and>
      ((\<forall>r. keeps_callbacks call r) \<longrightarrow>
         loop call (append_requests h reqs, w) tr \<noteq> None))"
proof (intro conjI allI impI)
  fix b s' tr'
  assume "loop call (h, w) tr = Some (Inr b, s', tr')"
  with while_event_queue_empties [of call True "(h, w)" tr "(Inr b, s', tr')"]
  show "event_queue (fst s') = []" by (simp add: loop_def)
next
  assume pre: "queue_blind call \<and> event_queue h = []"
  then show eq: "loop call (append_requests h reqs, w) tr =
      map_option drained (fire_directly call reqs (h, w) tr)"
    by (simp add: loop_direct)
  {
    fix oks s' tr' rest
    assume run: "fire_directly call reqs (h, w) tr = Some (Inr oks, s', tr', rest)"
    from fire_directly_all [OF run] show "length oks = length reqs" by simp
    from fire_directly_keeps_queue [OF _ run] pre
    show empty: "event_queue (fst s') = []" by simp
    from fire_directly_all [OF run] have "rest = []" by simp
    with eq run empty
    show "loop call (append_requests h reqs, w) tr = Some (Inr (list_all id oks), s', tr')"
      by (simp add: drained_def requeue_same)
  }
  {
    fix e s' tr' rest
    assume "fire_directly call reqs (h, w) tr = Some (Inl e, s', tr', rest)"
    with eq show "loop call (append_requests h reqs, w) tr = Some (Inl e, requeue rest s', tr')"
      by (simp add: drained_def)
  }
  assume "\<forall>r. keeps_callbacks call r"
  from fire_directly_returns [OF this, of reqs "(h, w)" tr] eq
  show "loop call (append_requests h reqs, w) tr \<noteq> None" by auto
qed

theorem loop_fires_in_order_witness:
  "loop enqueuing (append_request ping_pong_handler ''ping'' ''x'' (), []) [] =
     Some (Inr True, (ping_pong_handler, [''recordA:x'', ''recordB:x'']),
       [Invocation recordA ''x'' () None, Invocation recordB ''x'' () None]) \<and>
   event_queue ping_pong_handler = [] \<and>
   queue_blind recording \<and> queue_blind (raising boom) \<and> event_queue ping_handler = [] \<and>
   (\<forall>r. keeps_callbacks recording r) \<and>
   fire_directly recording [(''ping'', ''x'', ()), (''ping'', ''y'', ())] (ping_handler, []) [] =
     Some (Inr [True, True],
       (ping_handler, [''recordA:x'', ''recordB:x'', ''recordA:y'', ''recordB:y'']),
       [Invocation recordA ''x'' () None, Invocation recordB ''x'' () None,
        Invocation recordA ''y'' () None, Invocation recordB ''y'' () None], []) \<and>
   loop recording
     (append_request (append_request ping_handler ''ping'' ''x'' ()) ''ping'' ''y'' (), []) [] =
     Some (Inr True,
       (ping_handler, [''recordA:x'', ''recordB:x'', ''recordA:y'', ''recordB:y'']),
       [Invocation recordA ''x'' () None, Invocation recordB ''x'' () None,
        Invocation recordA ''y'' () None, Invocation recordB ''y'' () None]) \<and>
   fire_directly (raising boom) [(''ping'', ''x'', ()), (''ping'', ''y'', ())]
       (ping_handler, []) [] =
     Some (Inl boom, (ping_handler, []), [Invocation recordA ''x'' () (Some boom)],
       [(''ping'', ''y'', ())]) \<and>
   loop (raising boom)
     (append_request (append_request ping_handler ''ping'' ''x'' ()) ''ping'' ''y'' (), []) [] =
     Some (Inl boom, (ping_handler\<lparr>event_queue := [(''ping'', ''y'', ())]\<rparr>, []),
       [Invocation recordA ''x'' () (Some boom)])"
  using
    loop_fires_in_order [of enqueuing "append_request ping_pong_handler ''ping'' ''x'' ()"
      "[]" "[]" "[]"]
    loop_fires_in_order [of recording ping_handler "[]" "[]"
      "[(''ping'', ''x'', ()), (''ping'', ''y'', ())]"]
    loop_fires_in_order [of "raising boom" ping_handler "[]" "[]"
      "[(''ping'', ''x'', ()), (''ping'', ''y'', ())]"]
    keeps_all_callbacks_recording
  by (simp add: queue_blind_recording queue_blind_raising keeps_callbacks_recording
      fire_ping_recording fire_ping_raising append_requests_def requeue_def drained_def
      loop_enqueuing)
     (simp add: ping_handler_eq ping_pong_handler_eq append_request_def)

theorem loop_fires_in_order_counterexample:
  "event_queue ping_pong_handler = [] \<and>
   loop enqueuing (append_request ping_pong_handler ''ping'' ''x'' (), []) [] =
     Some (Inr True, (ping_pong_handler, [''recordA:x'', ''recordB:x'']),
       [Invocation recordA ''x'' () None, Invocation recordB ''x'' () None]) \<and>
   fire enqueuing ''ping'' ''x'' () (ping_pong_handler, []) [] =
     Some (Inr True, (append_request ping_pong_handler ''pong'' ''x'' (), [''recordA:x'']),
       [Invocation recordA ''x'' () None])"
  by (simp add: ping_pong_handler_eq loop_def while_event_queue.simps fire_def
      for_callbacks.simps try_callback_def enqueuing_def recording_def append_request_def
      invocation_of_def recordA_def recordB_def)

end
